theory Spec2Isabelle
  imports Main "HOL-Library.Sublist"
begin

section \<open>Font stacks of \<open>getFontStyles\<close> (utils/style.ts)\<close>

text \<open>
  \<open>getFontStyles\<close> builds three ordered lists of font names and prints each into a CSS
  custom property. The six static lists it reads are imported from
  \<open>@/services/constants\<close>, a file that is not among the sources at hand, so they are a
  parameter of the model: a record with one field per imported constant. JavaScript
  strings are compared with \<open>!==\<close> by content, as HOL compares \<open>string\<close>s.
\<close>

record fontConstants =
  SERIF_FONTS :: "string list"
  SANS_SERIF_FONTS :: "string list"
  MONOSPACE_FONTS :: "string list"
  FALLBACK_FONTS :: "string list"
  CJK_SERIF_FONTS :: "string list"
  CJK_SANS_SERIF_FONTS :: "string list"

definition lastSerifFonts :: "string list" where
  "lastSerifFonts = [''Georgia'', ''Times New Roman'']"

text \<open>
  \<^verbatim>\<open>
  const serifFonts = [
    serif,
    ...(defaultCJKFont !== serif ? [defaultCJKFont] : []),
    ...SERIF_FONTS.filter(
      (font) => font !== serif && font !== defaultCJKFont && !lastSerifFonts.includes(font)),
    ...CJK_SERIF_FONTS.filter((font) => font !== serif && font !== defaultCJKFont),
    ...lastSerifFonts.filter(
      (font) => SERIF_FONTS.includes(font) && !lastSerifFonts.includes(defaultCJKFont)),
    ...FALLBACK_FONTS,
  ];
  \<close>
\<close>

definition serifFonts :: "fontConstants \<Rightarrow> string \<Rightarrow> string \<Rightarrow> string list" where
  "serifFonts c serif defaultCJKFont =
     [serif]
     @ (if defaultCJKFont \<noteq> serif then [defaultCJKFont] else [])
     @ filter (\<lambda>font. font \<noteq> serif \<and> font \<noteq> defaultCJKFont \<and> font \<notin> set lastSerifFonts)
         (SERIF_FONTS c)
     @ filter (\<lambda>font. font \<noteq> serif \<and> font \<noteq> defaultCJKFont) (CJK_SERIF_FONTS c)
     @ filter (\<lambda>font. font \<in> set (SERIF_FONTS c) \<and> defaultCJKFont \<notin> set lastSerifFonts)
         lastSerifFonts
     @ FALLBACK_FONTS c"

text \<open>
  \<^verbatim>\<open>
  const sansSerifFonts = [
    sansSerif,
    ...(defaultCJKFont !== sansSerif ? [defaultCJKFont] : []),
    ...SANS_SERIF_FONTS.filter((font) => font !== sansSerif && font !== defaultCJKFont),
    ...CJK_SANS_SERIF_FONTS.filter((font) => font !== sansSerif && font !== defaultCJKFont),
    ...FALLBACK_FONTS,
  ];
  const monospaceFonts = [monospace, ...MONOSPACE_FONTS.filter((font) => font !== monospace)];
  \<close>
\<close>

definition sansSerifFonts :: "fontConstants \<Rightarrow> string \<Rightarrow> string \<Rightarrow> string list" where
  "sansSerifFonts c sansSerif defaultCJKFont =
     [sansSerif]
     @ (if defaultCJKFont \<noteq> sansSerif then [defaultCJKFont] else [])
     @ filter (\<lambda>font. font \<noteq> sansSerif \<and> font \<noteq> defaultCJKFont) (SANS_SERIF_FONTS c)
     @ filter (\<lambda>font. font \<noteq> sansSerif \<and> font \<noteq> defaultCJKFont) (CJK_SANS_SERIF_FONTS c)
     @ FALLBACK_FONTS c"

definition monospaceFonts :: "fontConstants \<Rightarrow> string \<Rightarrow> string list" where
  "monospaceFonts c monospace =
     monospace # filter (\<lambda>font. font \<noteq> monospace) (MONOSPACE_FONTS c)"

text \<open>
  The value of a custom property: every name in double quotes, the names joined with
  a comma and a blank, then the generic CSS keyword
  (\<^verbatim>\<open>${fonts.map((font) => `"${font}"`).join(', ')}, serif;\<close>).
\<close>

fun joinWith :: "string \<Rightarrow> string list \<Rightarrow> string" where
  "joinWith sep [] = []"
| "joinWith sep [x] = x"
| "joinWith sep (x # y # ys) = x @ sep @ joinWith sep (y # ys)"

definition quoted :: "string \<Rightarrow> string" where
  "quoted font = [CHR 0x22] @ font @ [CHR 0x22]"

definition fontProperty :: "string \<Rightarrow> string list \<Rightarrow> string \<Rightarrow> string" where
  "fontProperty name fonts generic =
     name @ '': '' @ joinWith '', '' (map quoted fonts) @ '', '' @ generic @ '';''"

definition serifProperty :: "fontConstants \<Rightarrow> string \<Rightarrow> string \<Rightarrow> string" where
  "serifProperty c serif defaultCJKFont =
     fontProperty ''--serif'' (serifFonts c serif defaultCJKFont) ''serif''"

definition sansSerifProperty :: "fontConstants \<Rightarrow> string \<Rightarrow> string \<Rightarrow> string" where
  "sansSerifProperty c sansSerif defaultCJKFont =
     fontProperty ''--sans-serif'' (sansSerifFonts c sansSerif defaultCJKFont) ''sans-serif''"

definition monospaceProperty :: "fontConstants \<Rightarrow> string \<Rightarrow> string" where
  "monospaceProperty c monospace =
     fontProperty ''--monospace'' (monospaceFonts c monospace) ''monospace''"

text \<open>
  The parts of the serif stack, named so that statements can speak about them: what
  precedes the re-appended last-resort fonts, and the re-appended fonts themselves.
\<close>

definition serifFront :: "fontConstants \<Rightarrow> string \<Rightarrow> string \<Rightarrow> string list" where
  "serifFront c serif defaultCJKFont =
     [serif]
     @ (if defaultCJKFont \<noteq> serif then [defaultCJKFont] else [])
     @ filter (\<lambda>font. font \<noteq> serif \<and> font \<noteq> defaultCJKFont \<and> font \<notin> set lastSerifFonts)
         (SERIF_FONTS c)
     @ filter (\<lambda>font. font \<noteq> serif \<and> font \<noteq> defaultCJKFont) (CJK_SERIF_FONTS c)"

definition lastSerifAppended :: "fontConstants \<Rightarrow> string \<Rightarrow> string list" where
  "lastSerifAppended c defaultCJKFont =
     filter (\<lambda>font. font \<in> set (SERIF_FONTS c) \<and> defaultCJKFont \<notin> set lastSerifFonts)
       lastSerifFonts"

text \<open>
  One possible value of the imported constants, for evaluating the functions on concrete
  input. As the filter over \<open>lastSerifFonts\<close> presupposes, both last-resort fonts belong to
  its \<open>SERIF_FONTS\<close>.
\<close>

definition sampleConstants :: fontConstants where
  "sampleConstants = \<lparr>
     SERIF_FONTS = [''Bitter'', ''Literata'', ''Merriweather'', ''Vollkorn'', ''Georgia'',
       ''Times New Roman''],
     SANS_SERIF_FONTS = [''Roboto'', ''Noto Sans'', ''Open Sans'', ''Helvetica''],
     MONOSPACE_FONTS = [''Fira Code'', ''Lucida Console'', ''Consolas'', ''Courier New''],
     FALLBACK_FONTS = [''MiSans L3''],
     CJK_SERIF_FONTS = [''LXGW WenKai GB Screen'', ''LXGW WenKai TC'', ''Source Han Serif CN''],
     CJK_SANS_SERIF_FONTS = [''Noto Sans SC'', ''Noto Sans TC'']
   \<rparr>"


section \<open>The cursor of \<open>ParagraphIterator\<close> (utils/paragraph.ts)\<close>

text \<open>
  The class holds the block list \<open>#blocks\<close> and the cursor \<open>#index\<close>, which starts at
  \<open>-1\<close>. Every method is a function from the iterator to its result and the iterator
  afterwards. \<open>this.#blocks[i] ?? null\<close> is \<open>blockAt\<close>: an index outside the array reads
  \<open>undefined\<close> in JavaScript, which \<open>??\<close> turns into \<open>null\<close> (\<open>None\<close>).
\<close>

record 'r ParagraphIterator =
  blocks :: "'r list"
  index :: int

definition newParagraphIterator :: "'r list \<Rightarrow> 'r ParagraphIterator" where
  "newParagraphIterator bs = \<lparr>blocks = bs, index = - 1\<rparr>"

definition blockAt :: "'r list \<Rightarrow> int \<Rightarrow> 'r option" where
  "blockAt bs i = (if 0 \<le> i \<and> i < int (length bs) then Some (bs ! nat i) else None)"

definition currentIndex :: "'r ParagraphIterator \<Rightarrow> int" where
  "currentIndex it = index it"

definition current :: "'r ParagraphIterator \<Rightarrow> 'r option" where
  "current it = blockAt (blocks it) (index it)"

definition firstBlock :: "'r ParagraphIterator \<Rightarrow> 'r option \<times> 'r ParagraphIterator" where
  "firstBlock it =
     (if length (blocks it) = 0 then (None, it)
      else (blockAt (blocks it) 0, it\<lparr>index := 0\<rparr>))"

definition lastBlock :: "'r ParagraphIterator \<Rightarrow> 'r option \<times> 'r ParagraphIterator" where
  "lastBlock it =
     (if length (blocks it) = 0 then (None, it)
      else (blockAt (blocks it) (int (length (blocks it)) - 1),
            it\<lparr>index := int (length (blocks it)) - 1\<rparr>))"

definition nextBlock :: "'r ParagraphIterator \<Rightarrow> 'r option \<times> 'r ParagraphIterator" where
  "nextBlock it =
     (let newIndex = index it + 1 in
      if newIndex < int (length (blocks it))
      then (blockAt (blocks it) newIndex, it\<lparr>index := newIndex\<rparr>)
      else (None, it))"

definition prevBlock :: "'r ParagraphIterator \<Rightarrow> 'r option \<times> 'r ParagraphIterator" where
  "prevBlock it =
     (let newIndex = index it - 1 in
      if newIndex \<ge> 0
      then (blockAt (blocks it) newIndex, it\<lparr>index := newIndex\<rparr>)
      else (None, it))"

definition goTo :: "'r ParagraphIterator \<Rightarrow> int \<Rightarrow> 'r option \<times> 'r ParagraphIterator" where
  "goTo it i =
     (if i \<ge> 0 \<and> i < int (length (blocks it))
      then (blockAt (blocks it) i, it\<lparr>index := i\<rparr>)
      else (None, it))"


section \<open>Documents, boundary points and ranges\<close>

text \<open>
  The iterator reads the document through the DOM: a tree walker over the elements
  below \<open>body\<close>, and live ranges. The model of the tree: an element with its tag name in
  lower case (\<open>tagName.toLowerCase()\<close>, the name a type selector matches in an HTML
  document) and its child nodes, a text node with its data, a comment. Text is a list
  of UTF-16 code units, as a JavaScript string is.
\<close>

type_synonym jsstring = "nat list"

datatype node = Element string "node list" | Text jsstring | Comment jsstring

text \<open>
  Boundary points are totally ordered by tree order. The model names a boundary point
  by its place in the serialisation of \<open>body\<close>: the list of the start tags, end tags
  and character data of the tree in document order. Place \<open>k\<close> lies before the \<open>k\<close>-th
  token. The start tag of \<open>body\<close> is token \<open>0\<close>, so the boundary point \<open>(body, 0)\<close> is
  place \<open>1\<close>.
\<close>

datatype token = Open string | Close string | Chars jsstring | Note

fun tokens :: "node \<Rightarrow> token list" where
  "tokens (Element name children) = Open name # concat (map tokens children) @ [Close name]"
| "tokens (Text d) = [Chars d]"
| "tokens (Comment d) = [Note]"

definition tokensOf :: "node list \<Rightarrow> token list" where
  "tokensOf ns = concat (map tokens ns)"

definition bodyTokens :: "node list \<Rightarrow> token list" where
  "bodyTokens children = Open ''body'' # tokensOf children @ [Close ''body'']"

record document =
  docId :: nat
  body :: "node list option"

text \<open>
  A range: the document it belongs to (its root) and its two boundary points. A node a
  caller hands in is known by its root and the places before and after it; the
  document node itself has no parent.
\<close>

record range =
  rroot :: nat
  rstart :: nat
  rend :: nat

datatype nodeRef = RootNode nat | TreeNode nat nat nat

record targetRange = range +
  startContainer :: nodeRef

text \<open>
  \<open>document.createRange()\<close> yields a range collapsed at \<open>(document, 0)\<close>. Setting a
  boundary point keeps start before end, as the DOM standard's "set the start or end"
  does: a start after the end moves the end, an end before the start moves the start.
\<close>

definition createRange :: "document \<Rightarrow> range" where
  "createRange doc = \<lparr>rroot = docId doc, rstart = 0, rend = 0\<rparr>"

definition setStartAt :: "range \<Rightarrow> nat \<Rightarrow> range" where
  "setStartAt r p = r\<lparr>rstart := p, rend := (if rend r < p then p else rend r)\<rparr>"

definition setEndAt :: "range \<Rightarrow> nat \<Rightarrow> range" where
  "setEndAt r p = r\<lparr>rstart := (if p < rstart r then p else rstart r), rend := p\<rparr>"

text \<open>
  The places of a node whose first token is token \<open>i\<close>: \<open>setStart(node, 0)\<close> is just
  inside an element (after its start tag) and at the start of character data;
  \<open>setEndBefore(node)\<close> is place \<open>i\<close>; \<open>setEndAfter(node)\<close> is the place after its last
  token.
\<close>

fun insideAt :: "nat \<Rightarrow> node \<Rightarrow> nat" where
  "insideAt i (Element name children) = Suc i"
| "insideAt i (Text d) = i"
| "insideAt i (Comment d) = i"

definition afterAt :: "nat \<Rightarrow> node \<Rightarrow> nat" where
  "afterAt i n = i + length (tokens n)"

text \<open>
  The tokens between the boundary points of a range. \<open>Range.toString()\<close> is the
  character data among them. \<open>Range.cloneContents()\<close> clones every node that is
  contained or partially contained in the range, that is every node with a token of its
  own among them, so an element is found in the fragment when its start tag or its end
  tag is.
\<close>

definition slice :: "token list \<Rightarrow> 'a range_scheme \<Rightarrow> token list" where
  "slice toks r = take (rend r - rstart r) (drop (rstart r) toks)"

fun charsOf :: "token list \<Rightarrow> jsstring" where
  "charsOf [] = []"
| "charsOf (Chars d # ts) = d @ charsOf ts"
| "charsOf (t # ts) = charsOf ts"

definition rangeToString :: "token list \<Rightarrow> 'a range_scheme \<Rightarrow> jsstring" where
  "rangeToString toks r = charsOf (slice toks r)"

fun tagOf :: "token \<Rightarrow> string option" where
  "tagOf (Open name) = Some name"
| "tagOf (Close name) = Some name"
| "tagOf (Chars d) = None"
| "tagOf Note = None"

definition clonedTags :: "token list \<Rightarrow> 'a range_scheme \<Rightarrow> string list" where
  "clonedTags toks r = List.map_filter tagOf (slice toks r)"

text \<open>
  \<open>Range.compareBoundaryPoints(how, sourceRange)\<close> of the DOM standard: it throws when
  the two ranges have different roots; otherwise \<open>how\<close> picks one boundary point of
  this range and one of the source range, and the result is \<open>-1\<close>, \<open>0\<close> or \<open>1\<close> as the
  first is before, equal to or after the second. \<open>START_TO_END\<close> compares the end of
  this range with the start of the source range, \<open>END_TO_START\<close> the start of this range
  with the end of the source range.
\<close>

datatype how = START_TO_START | START_TO_END | END_TO_END | END_TO_START

datatype domException = NotSupportedError | WrongDocumentError

definition position :: "nat \<Rightarrow> nat \<Rightarrow> int" where
  "position a b = (if a < b then - 1 else if a = b then 0 else 1)"

fun compareBoundaryPoints ::
  "how \<Rightarrow> 'a range_scheme \<Rightarrow> 'b range_scheme \<Rightarrow> domException + int" where
  "compareBoundaryPoints h this sourceRange =
     (if rroot this \<noteq> rroot sourceRange then Inl WrongDocumentError
      else Inr (case h of
          START_TO_START \<Rightarrow> position (rstart this) (rstart sourceRange)
        | START_TO_END \<Rightarrow> position (rend this) (rstart sourceRange)
        | END_TO_END \<Rightarrow> position (rend this) (rend sourceRange)
        | END_TO_START \<Rightarrow> position (rstart this) (rend sourceRange)))"

text \<open>
  \<open>Range.intersectsNode(node)\<close>: false for a node of another root, true for the root
  itself, and otherwise true when the place before the node is before the end of the
  range and the place after the node is after its start.
\<close>

fun intersectsNode :: "'a range_scheme \<Rightarrow> nodeRef \<Rightarrow> bool" where
  "intersectsNode r (RootNode root) = (root = rroot r)"
| "intersectsNode r (TreeNode root before after) =
     (root = rroot r \<and> before < rend r \<and> rstart r < after)"


text \<open>
  \<open>doc.createTreeWalker(doc.body, NodeFilter.SHOW_ELEMENT)\<close> and its \<open>nextNode()\<close>: the
  elements below \<open>body\<close> in document order, \<open>body\<close> itself left out. \<open>walk i ns\<close> lists the
  elements of the forest \<open>ns\<close> whose first token is token \<open>i\<close>, each with the index of
  its start tag.
\<close>

fun walk :: "nat \<Rightarrow> node list \<Rightarrow> (nat \<times> node) list" where
  "walk i [] = []"
| "walk i (Element name children # ns) =
     (i, Element name children) # walk (Suc i) children
       @ walk (i + length (tokens (Element name children))) ns"
| "walk i (Text d # ns) = walk (Suc i) ns"
| "walk i (Comment d # ns) = walk (Suc i) ns"


section \<open>Lookup in \<open>ParagraphIterator\<close>\<close>

text \<open>
  \<^verbatim>\<open>
  findByNode(targetNode: Node | null): Range | null {
    if (!targetNode) return this.first();
    for (let i = 0; i < this.#blocks.length; i++) {
      const block = this.#blocks[i];
      try {
        if (block?.intersectsNode(targetNode)) { this.#index = i; return block; }
      } catch { continue; }
    }
    return this.first();
  }
  \<close>
  The loop is \<open>scanByNode\<close>, with \<open>i\<close> the index of the head of the list.
\<close>

fun scanByNode :: "'b range_scheme list \<Rightarrow> nodeRef \<Rightarrow> nat \<Rightarrow> (nat \<times> 'b range_scheme) option" where
  "scanByNode [] targetNode i = None"
| "scanByNode (block # bs) targetNode i =
     (if intersectsNode block targetNode then Some (i, block)
      else scanByNode bs targetNode (Suc i))"

definition findByNode ::
  "'b range_scheme ParagraphIterator \<Rightarrow> nodeRef option
     \<Rightarrow> 'b range_scheme option \<times> 'b range_scheme ParagraphIterator" where
  "findByNode it targetNode =
     (case targetNode of
        None \<Rightarrow> firstBlock it
      | Some n \<Rightarrow>
          (case scanByNode (blocks it) n 0 of
             Some (i, block) \<Rightarrow> (Some block, it\<lparr>index := int i\<rparr>)
           | None \<Rightarrow> firstBlock it))"

text \<open>
  \<^verbatim>\<open>
  async findByRangeAsync(targetRange: Range | null, batchSize = 50): Promise<Range | null> {
    if (!targetRange) return this.first();
    for (let i = 0; i < this.#blocks.length; i++) {
      if (i > 0 && i % batchSize === 0) { await yieldToMain(); }
      const block = this.#blocks[i];
      if (!block) continue;
      try {
        const startToEnd = block.compareBoundaryPoints(Range.START_TO_END, targetRange);
        const endToStart = block.compareBoundaryPoints(Range.END_TO_START, targetRange);
        if (startToEnd >= 0 && endToStart <= 0) { this.#index = i; return block; }
      } catch { continue; }
    }
    try { return this.findByNode(targetRange.startContainer); }
    catch { return this.first(); }
  }
  \<close>
  The boundary-point scan is \<open>scanByRange\<close>; a comparison that throws is the \<open>Inl\<close>
  branch, which goes on with the next block. Yielding to the scheduler changes no
  value and is left out.
\<close>

fun scanByRange ::
  "'b range_scheme list \<Rightarrow> 'a range_scheme \<Rightarrow> nat \<Rightarrow> (nat \<times> 'b range_scheme) option" where
  "scanByRange [] targetRange i = None"
| "scanByRange (block # bs) targetRange i =
     (case compareBoundaryPoints START_TO_END block targetRange of
        Inl e \<Rightarrow> scanByRange bs targetRange (Suc i)
      | Inr startToEnd \<Rightarrow>
          (case compareBoundaryPoints END_TO_START block targetRange of
             Inl e \<Rightarrow> scanByRange bs targetRange (Suc i)
           | Inr endToStart \<Rightarrow>
               if startToEnd \<ge> 0 \<and> endToStart \<le> 0 then Some (i, block)
               else scanByRange bs targetRange (Suc i)))"

definition findByRangeAsync ::
  "'b range_scheme ParagraphIterator \<Rightarrow> targetRange option
     \<Rightarrow> 'b range_scheme option \<times> 'b range_scheme ParagraphIterator" where
  "findByRangeAsync it targetRange =
     (case targetRange of
        None \<Rightarrow> firstBlock it
      | Some t \<Rightarrow>
          (case scanByRange (blocks it) t 0 of
             Some (i, block) \<Rightarrow> (Some block, it\<lparr>index := int i\<rparr>)
           | None \<Rightarrow> findByNode it (Some (startContainer t))))"


section \<open>Building the blocks: \<open>ParagraphIterator.createAsync\<close>\<close>

definition blockTags :: "string list" where
  "blockTags = [''article'', ''aside'', ''blockquote'', ''caption'', ''details'', ''div'',
     ''dl'', ''dt'', ''dd'', ''figure'', ''footer'', ''figcaption'', ''h1'', ''h2'', ''h3'',
     ''h4'', ''h5'', ''h6'', ''header'', ''hgroup'', ''li'', ''main'', ''nav'', ''ol'', ''p'',
     ''pre'', ''section'', ''tr'']"

definition MAX_BLOCKS :: nat where
  "MAX_BLOCKS = 5000"

text \<open>
  \<^verbatim>\<open>
  const INVISIBLE_TEXT_PATTERN =
    /[\s\u00a0\u1680\u180e\u2000-\u200a\u202f\u205f\u3000\u200b-\u200d\u2060\ufeff]/g;
  const MEDIA_SELECTOR = 'img, svg, video, audio, canvas, math, iframe, object, embed, hr';
  const hasMeaningfulText = (text?: string | null): boolean =>
    (text ?? '').replace(INVISIBLE_TEXT_PATTERN, '').length > 0;
  \<close>
  \<open>\s\<close> of an ECMAScript regular expression is the white space and line terminator
  code units: U+0009 to U+000D, U+0020, U+00A0, U+1680, U+2000 to U+200A, U+2028,
  U+2029, U+202F, U+205F, U+3000 and U+FEFF.
\<close>

definition jsWhiteSpace :: "nat \<Rightarrow> bool" where
  "jsWhiteSpace c \<longleftrightarrow>
     (0x9 \<le> c \<and> c \<le> 0xD) \<or> c = 0x20 \<or> c = 0xA0 \<or> c = 0x1680 \<or> (0x2000 \<le> c \<and> c \<le> 0x200A)
     \<or> c = 0x2028 \<or> c = 0x2029 \<or> c = 0x202F \<or> c = 0x205F \<or> c = 0x3000 \<or> c = 0xFEFF"

definition invisible :: "nat \<Rightarrow> bool" where
  "invisible c \<longleftrightarrow>
     jsWhiteSpace c \<or> c = 0xA0 \<or> c = 0x1680 \<or> c = 0x180E \<or> (0x2000 \<le> c \<and> c \<le> 0x200A)
     \<or> c = 0x202F \<or> c = 0x205F \<or> c = 0x3000 \<or> (0x200B \<le> c \<and> c \<le> 0x200D)
     \<or> c = 0x2060 \<or> c = 0xFEFF"

definition hasMeaningfulText :: "jsstring \<Rightarrow> bool" where
  "hasMeaningfulText text \<longleftrightarrow> length (filter (\<lambda>c. \<not> invisible c) text) > 0"

definition MEDIA_SELECTOR :: "string list" where
  "MEDIA_SELECTOR = [''img'', ''svg'', ''video'', ''audio'', ''canvas'', ''math'', ''iframe'',
     ''object'', ''embed'', ''hr'']"

text \<open>
  \<^verbatim>\<open>
  const rangeHasContent = (range: Range): boolean => {
    try {
      const text = range.toString();
      if (hasMeaningfulText(text)) return true;
      const fragment = range.cloneContents();
      return !!fragment.querySelector?.(MEDIA_SELECTOR);
    } catch { return false; }
  };
  \<close>
  Neither call throws on the ranges of this model, which lie inside \<open>body\<close>.
\<close>

definition rangeHasContent :: "token list \<Rightarrow> 'a range_scheme \<Rightarrow> bool" where
  "rangeHasContent toks r \<longleftrightarrow>
     (if hasMeaningfulText (rangeToString toks r) then True
      else list_ex (\<lambda>name. name \<in> set MEDIA_SELECTOR) (clonedTags toks r))"

text \<open>
  \<^verbatim>\<open>
  const hasDirectText = (node: Element): boolean =>
    Array.from(node.childNodes).some(
      (child) => child.nodeType === Node.TEXT_NODE && hasMeaningfulText(child.textContent));
  const hasBlockChild = (node: Element): boolean =>
    Array.from(node.children).some((child) => blockTags.has(child.tagName.toLowerCase()));
  \<close>
\<close>

fun childNodes :: "node \<Rightarrow> node list" where
  "childNodes (Element name children) = children"
| "childNodes (Text d) = []"
| "childNodes (Comment d) = []"

fun isMeaningfulTextNode :: "node \<Rightarrow> bool" where
  "isMeaningfulTextNode (Text d) = hasMeaningfulText d"
| "isMeaningfulTextNode (Element name children) = False"
| "isMeaningfulTextNode (Comment d) = False"

fun isBlockElement :: "node \<Rightarrow> bool" where
  "isBlockElement (Element name children) = (name \<in> set blockTags)"
| "isBlockElement (Text d) = False"
| "isBlockElement (Comment d) = False"

definition hasDirectText :: "node \<Rightarrow> bool" where
  "hasDirectText n = list_ex isMeaningfulTextNode (childNodes n)"

definition hasBlockChild :: "node \<Rightarrow> bool" where
  "hasBlockChild n = list_ex isBlockElement (childNodes n)"

text \<open>
  The variables of the loop of \<open>createAsync\<close>: \<open>blocks\<close>, \<open>last\<close> and \<open>count\<close>. The body of
  the loop for one element of the walk is \<open>visit\<close>:
  \<^verbatim>\<open>
  const name = element.tagName?.toLowerCase();
  if (name && blockTags.has(name)) {
    if (hasBlockChild(element) && !hasDirectText(element)) { continue; }
    if (last) {
      try {
        last.setEndBefore(node);
        if (rangeHasContent(last)) { blocks.push(last); count++; }
      } catch { }
    }
    try { last = doc.createRange(); last.setStart(node, 0); } catch { last = null; }
  }
  \<close>
  \<open>setEndBefore\<close> throws for a node without a parent and \<open>setStart\<close> for a doctype or an
  offset past the node's length; an element of the walk has a parent, and offset \<open>0\<close> is
  within every element, so the \<open>catch\<close> branches are not taken here. \<open>closeAndOpen\<close> is
  the part from \<open>if (last)\<close> on, given the place before the node and the place \<open>(node, 0)\<close>.
\<close>

record build =
  bBlocks :: "range list"
  bLast :: "range option"
  bCount :: nat

definition closeAndOpen :: "document \<Rightarrow> token list \<Rightarrow> build \<Rightarrow> nat \<Rightarrow> nat \<Rightarrow> build" where
  "closeAndOpen doc toks st before inside =
     (let st1 =
        (case bLast st of
           None \<Rightarrow> st
         | Some l \<Rightarrow>
             (let closed = setEndAt l before in
              if rangeHasContent toks closed
              then st\<lparr>bBlocks := bBlocks st @ [closed], bCount := bCount st + 1\<rparr>
              else st))
      in st1\<lparr>bLast := Some (setStartAt (createRange doc) inside)\<rparr>)"

definition visit :: "document \<Rightarrow> token list \<Rightarrow> build \<Rightarrow> nat \<times> node \<Rightarrow> build" where
  "visit doc toks st e =
     (case e of (i, n) \<Rightarrow>
        if isBlockElement n then
          (if hasBlockChild n \<and> \<not> hasDirectText n then st
           else closeAndOpen doc toks st i (insideAt i n))
        else st)"

text \<open>
  \<^verbatim>\<open>for (let node = walker.nextNode(); node && count < MAX_BLOCKS; node = walker.nextNode())\<close>
  The counter \<open>processed\<close> and the \<open>await yieldToMain()\<close> every \<open>batchSize\<close> elements change
  no value of the result and are left out, and with them the parameter \<open>batchSize\<close>.
\<close>

fun walkLoop :: "document \<Rightarrow> token list \<Rightarrow> (nat \<times> node) list \<Rightarrow> build \<Rightarrow> build" where
  "walkLoop doc toks [] st = st"
| "walkLoop doc toks (e # es) st =
     (if bCount st < MAX_BLOCKS then walkLoop doc toks es (visit doc toks st e) else st)"

text \<open>
  After the loop:
  \<^verbatim>\<open>
  if (count >= MAX_BLOCKS) { console.warn(...); return new ParagraphIterator(blocks); }
  if (!last) {
    try {
      last = doc.createRange();
      const startNode = doc.body.firstChild ?? doc.body;
      last.setStart(startNode, 0);
    } catch { return new ParagraphIterator(blocks); }
  }
  try {
    const endNode = doc.body.lastChild ?? doc.body;
    last.setEndAfter(endNode);
    if (rangeHasContent(last)) { blocks.push(last); }
  } catch { }
  return new ParagraphIterator(blocks);
  \<close>
  \<open>startPlace\<close> is the place of \<open>(startNode, 0)\<close> and \<open>endPlace\<close> the place after \<open>endNode\<close>.
\<close>

definition startPlace :: "node list \<Rightarrow> nat" where
  "startPlace children = (case children of [] \<Rightarrow> 1 | n # ns \<Rightarrow> insideAt 1 n)"

definition endPlace :: "node list \<Rightarrow> nat" where
  "endPlace children =
     (case children of
        [] \<Rightarrow> length (bodyTokens children)
      | n # ns \<Rightarrow> Suc (length (tokensOf children)))"

definition createAsync :: "document \<Rightarrow> range ParagraphIterator" where
  "createAsync doc =
     (case body doc of
        None \<Rightarrow> newParagraphIterator []
      | Some children \<Rightarrow>
          (let toks = bodyTokens children;
               st = walkLoop doc toks (walk 1 children) \<lparr>bBlocks = [], bLast = None, bCount = 0\<rparr>
           in if bCount st \<ge> MAX_BLOCKS then newParagraphIterator (bBlocks st)
              else
                (let l = (case bLast st of
                            None \<Rightarrow> setStartAt (createRange doc) (startPlace children)
                          | Some l \<Rightarrow> l);
                     closed = setEndAt l (endPlace children)
                 in if rangeHasContent toks closed
                    then newParagraphIterator (bBlocks st @ [closed])
                    else newParagraphIterator (bBlocks st))))"

text \<open>The text of a string literal as UTF-16 code units, for writing documents down.\<close>

definition utf16 :: "string \<Rightarrow> jsstring" where
  "utf16 s = map of_char s"


section \<open>The blocks as segments of the serialisation\<close>

text \<open>
  The loop opens a range inside every block-tag element that is not a mere container of
  blocks, and closes the open range before the next such element. \<open>qualifies\<close> says
  which elements these are. \<open>marks\<close> is the serialisation with the start tag of every
  qualifying element marked, and \<open>scan\<close> is the loop run over it, token by token.
\<close>

definition qualifies :: "node \<Rightarrow> bool" where
  "qualifies n \<longleftrightarrow> isBlockElement n \<and> \<not> (hasBlockChild n \<and> \<not> hasDirectText n)"

fun marks :: "node \<Rightarrow> (bool \<times> token) list" where
  "marks (Element name children) =
     (qualifies (Element name children), Open name) # concat (map marks children)
       @ [(False, Close name)]"
| "marks (Text d) = [(False, Chars d)]"
| "marks (Comment d) = [(False, Note)]"

definition marksOf :: "node list \<Rightarrow> (bool \<times> token) list" where
  "marksOf ns = concat (map marks ns)"

fun scan :: "document \<Rightarrow> token list \<Rightarrow> nat \<Rightarrow> (bool \<times> token) list \<Rightarrow> build \<Rightarrow> build" where
  "scan doc toks i [] st = st"
| "scan doc toks i ((m, t) # ms) st =
     scan doc toks (Suc i) ms
       (if m \<and> bCount st < MAX_BLOCKS then closeAndOpen doc toks st i (Suc i) else st)"

text \<open>
  \<open>cut root cur i ms\<close> lists the ranges that the marks of \<open>ms\<close> close, each with the tokens
  it spans, and the range left open at the end: \<open>cur\<close> is the open range (its start and
  the tokens since), \<open>i\<close> the index of the head of \<open>ms\<close>.
\<close>

fun extendOpen :: "(nat \<times> token list) option \<Rightarrow> token list \<Rightarrow> (nat \<times> token list) option" where
  "extendOpen None ts = None"
| "extendOpen (Some (s, pend)) ts = Some (s, pend @ ts)"

fun closing :: "nat \<Rightarrow> (nat \<times> token list) option \<Rightarrow> nat \<Rightarrow> (range \<times> token list) list" where
  "closing root None i = []"
| "closing root (Some (s, pend)) i = [(\<lparr>rroot = root, rstart = s, rend = i\<rparr>, pend)]"

fun cut :: "nat \<Rightarrow> (nat \<times> token list) option \<Rightarrow> nat \<Rightarrow> (bool \<times> token) list
    \<Rightarrow> (range \<times> token list) list \<times> (nat \<times> token list) option" where
  "cut root cur i [] = ([], cur)"
| "cut root cur i ((m, t) # ms) =
     (if m then
        (case cut root (Some (Suc i, [])) (Suc i) ms of
           (cs, fin) \<Rightarrow> (closing root cur i @ cs, fin))
      else cut root (extendOpen cur [t]) (Suc i) ms)"

definition segContent :: "token list \<Rightarrow> bool" where
  "segContent seg \<longleftrightarrow>
     hasMeaningfulText (charsOf seg)
     \<or> list_ex (\<lambda>name. name \<in> set MEDIA_SELECTOR) (List.map_filter tagOf seg)"


text \<open>
  The places of the start tags of the qualifying elements, in document order, and the
  ranges the loop closes: from just inside one qualifying element to just before the
  next.
\<close>

definition qualifyingStarts :: "node list \<Rightarrow> nat list" where
  "qualifyingStarts children = map fst (filter (\<lambda>e. qualifies (snd e)) (walk 1 children))"

definition blockRanges :: "document \<Rightarrow> node list \<Rightarrow> range list" where
  "blockRanges doc children =
     map (\<lambda>(q, q'). \<lparr>rroot = docId doc, rstart = Suc q, rend = q'\<rparr>)
       (zip (qualifyingStarts children) (tl (qualifyingStarts children)))"

fun markedAt :: "nat \<Rightarrow> (bool \<times> token) list \<Rightarrow> nat list" where
  "markedAt i [] = []"
| "markedAt i ((m, t) # ms) = (if m then [i] else []) @ markedAt (Suc i) ms"

text \<open>
  An element has meaningful content when the text below it is meaningful or a media
  element is below it (or is the element itself).
\<close>

definition elementHasContent :: "node \<Rightarrow> bool" where
  "elementHasContent n = segContent (tokens n)"

text \<open>
  Kinds of subtrees: without any block-tag element; a block-tag element without
  block-tag elements below it; without meaningful text, media and block-tag elements
  (white space, a line break, such content wrapped in inline elements); a paragraph of
  such content only; a paragraph of one text node.
\<close>

fun noBlocks :: "node \<Rightarrow> bool" where
  "noBlocks (Element name children) = (name \<notin> set blockTags \<and> list_all noBlocks children)"
| "noBlocks (Text d) = True"
| "noBlocks (Comment d) = True"

fun leafBlock :: "node \<Rightarrow> bool" where
  "leafBlock (Element name children) = (name \<in> set blockTags \<and> list_all noBlocks children)"
| "leafBlock (Text d) = False"
| "leafBlock (Comment d) = False"

fun blank :: "node \<Rightarrow> bool" where
  "blank (Element name children) =
     (name \<notin> set blockTags \<and> name \<notin> set MEDIA_SELECTOR \<and> list_all blank children)"
| "blank (Text d) = (\<not> hasMeaningfulText d)"
| "blank (Comment d) = True"

fun blankParagraph :: "node \<Rightarrow> bool" where
  "blankParagraph (Element name children) = (name = ''p'' \<and> list_all blank children)"
| "blankParagraph (Text d) = False"
| "blankParagraph (Comment d) = False"

definition textParagraph :: "jsstring \<Rightarrow> node" where
  "textParagraph d = Element ''p'' [Text d]"

text \<open>
  The ranges of a list of sibling elements that starts at token \<open>i\<close>, when each of them
  opens a range and nothing below them does: from inside the element to the place
  after it, spanning its tokens but the start tag.
\<close>

fun flatCands :: "nat \<Rightarrow> nat \<Rightarrow> node list \<Rightarrow> (range \<times> token list) list" where
  "flatCands root i [] = []"
| "flatCands root i (n # ns) =
     (\<lparr>rroot = root, rstart = Suc i, rend = i + length (tokens n)\<rparr>, tl (tokens n))
       # flatCands root (i + length (tokens n)) ns"

text \<open>
  \<open><div><p>a</p>t</div>\<close>: a block-tag element with a block-tag child and direct text
  after it. It qualifies, and so does its paragraph, which is its first child.
\<close>

definition trailingTextDiv :: node where
  "trailingTextDiv = Element ''div'' [textParagraph (utf16 ''a''), Text (utf16 ''t'')]"

definition agrees :: "document \<Rightarrow> token list \<Rightarrow> nat \<Rightarrow> build \<Rightarrow> (nat \<times> token list) option \<Rightarrow> bool" where
  "agrees doc toks i st cur \<longleftrightarrow>
     (case cur of
        None \<Rightarrow> bLast st = None
      | Some (s, pend) \<Rightarrow>
          bLast st = Some \<lparr>rroot = docId doc, rstart = s, rend = s\<rparr> \<and> s \<le> i
          \<and> pend = take (i - s) (drop s toks))"


section \<open>Meaningful content in the words of the specification\<close>

text \<open>
  The specification says what meaningful content is without the regular expression and
  the selector of the code: the plain text of the range, "stripped of a defined set of
  invisible/whitespace characters (regular spaces, non-breaking space and other Unicode
  space separators, zero-width characters, byte-order mark), has length > 0", or the
  range contains "at least one recognized media element (image, vector graphic, video,
  audio, canvas, math, iframe, object, embed, horizontal rule)". The definitions of
  this section follow these words and read the document tree, not the serialisation;
  what \<open>createAsync\<close> keeps is compared with them.

  The characters, group by group: white space and line breaks (tab, line feed, vertical
  tab, form feed, carriage return, space, line separator, paragraph separator); the
  non-breaking space and the other space separators of Unicode (U+1680, U+2000 to
  U+200A, U+202F, U+205F, U+3000); the characters without width (U+180E, U+200B to
  U+200D, U+2060); the byte-order mark.
\<close>

definition regularSpaces :: "nat list" where
  "regularSpaces = [0x9, 0xA, 0xB, 0xC, 0xD, 0x20, 0x2028, 0x2029]"

definition spaceSeparators :: "nat list" where
  "spaceSeparators = [0xA0, 0x1680] @ [0x2000..<0x200B] @ [0x202F, 0x205F, 0x3000]"

definition zeroWidthCharacters :: "nat list" where
  "zeroWidthCharacters = [0x180E, 0x200B, 0x200C, 0x200D, 0x2060]"

definition byteOrderMark :: nat where
  "byteOrderMark = 0xFEFF"

definition stripped :: "nat \<Rightarrow> bool" where
  "stripped c \<longleftrightarrow>
     c \<in> set regularSpaces \<or> c \<in> set spaceSeparators \<or> c \<in> set zeroWidthCharacters
     \<or> c = byteOrderMark"

text \<open>The media elements, by the names of their HTML elements, in the order of the list.\<close>

definition mediaElements :: "string list" where
  "mediaElements = [''img'', ''svg'', ''video'', ''audio'', ''canvas'', ''math'', ''iframe'',
     ''object'', ''embed'', ''hr'']"

text \<open>The plain text below a node, and whether a media element is at or below it.\<close>

fun plainText :: "node \<Rightarrow> jsstring" where
  "plainText (Element name children) = concat (map plainText children)"
| "plainText (Text d) = d"
| "plainText (Comment d) = []"

fun hasMedia :: "node \<Rightarrow> bool" where
  "hasMedia (Element name children) = (name \<in> set mediaElements \<or> list_ex hasMedia children)"
| "hasMedia (Text d) = False"
| "hasMedia (Comment d) = False"

definition meaningfulContent :: "node list \<Rightarrow> bool" where
  "meaningfulContent ns \<longleftrightarrow>
     length (filter (\<lambda>c. \<not> stripped c) (concat (map plainText ns))) > 0 \<or> list_ex hasMedia ns"

section \<open>Rewriting style sheets: \<open>transformStylesheet\<close> (utils/style.ts)\<close>

text \<open>
  \<open>transformStylesheet(css, vw, vh, vertical)\<close> sends a CSS text through a fixed
  sequence of \<open>String.prototype.replace\<close> passes, each driven by a regular expression.
  The model has three layers: the regular expressions of the function as a datatype with
  ECMAScript's backtracking semantics, \<open>test\<close> and \<open>replace\<close> on top of the matcher, and
  the passes in the order of the source.

  CSS text is a JavaScript string, a list of UTF-16 code units (\<open>jsstring\<close>). The
  regular expressions of the function have no \<open>u\<close> flag, so they work on code units,
  and every literal character in them is ASCII; \<open>utf16\<close> writes such a literal down.
\<close>

subsection \<open>The regular expressions and their matches\<close>

text \<open>
  The character classes that occur: \<open>[;$]\<close> and the like (\<open>OneOf\<close>), \<open>[^{]\<close>, \<open>[^}]\<close>,
  \<open>[^;]\<close> (\<open>NoneOf\<close>), \<open>\s\<close>, \<open>\d\<close> and \<open>[\s;]\<close> (\<open>SpaceOr\<close>). \<open>\s\<close> is \<open>jsWhiteSpace\<close>
  above, \<open>\d\<close> the digits \<open>0\<close> to \<open>9\<close>, and a word character for \<open>\b\<close> is an ASCII letter, a
  digit or \<open>_\<close>.
\<close>

datatype cclass = OneOf jsstring | NoneOf jsstring | Space | Digit | SpaceOr jsstring

definition isDigit :: "nat \<Rightarrow> bool" where
  "isDigit c \<longleftrightarrow> 0x30 \<le> c \<and> c \<le> 0x39"

definition isWordChar :: "nat \<Rightarrow> bool" where
  "isWordChar c \<longleftrightarrow>
     (0x61 \<le> c \<and> c \<le> 0x7A) \<or> (0x41 \<le> c \<and> c \<le> 0x5A) \<or> isDigit c \<or> c = 0x5F"

fun inClass :: "cclass \<Rightarrow> nat \<Rightarrow> bool" where
  "inClass (OneOf cs) c = (c \<in> set cs)"
| "inClass (NoneOf cs) c = (c \<notin> set cs)"
| "inClass Space c = jsWhiteSpace c"
| "inClass Digit c = isDigit c"
| "inClass (SpaceOr cs) c = (jsWhiteSpace c \<or> c \<in> set cs)"

text \<open>
  Under the \<open>i\<close> flag two code units match when their canonical forms agree. Without
  the \<open>u\<close> flag the canonical form of a code unit is its upper case, except that a code
  unit outside ASCII is never sent to an ASCII one. Every literal and every class
  member of the expressions is ASCII, so a literal letter matches its two ASCII cases
  and nothing else: folding \<open>A\<close> to \<open>Z\<close> (U+0041 to U+005A) onto \<open>a\<close> to \<open>z\<close> decides it.
\<close>

definition lowerCase :: "nat \<Rightarrow> nat" where
  "lowerCase c = (if 0x41 \<le> c \<and> c \<le> 0x5A then c + 0x20 else c)"

text \<open>
  The expressions are built from: one character of a class, a literal text, sequence,
  alternative \<open>a|b\<close>, the greedy \<open>a?\<close>, the greedy \<open>C*\<close> and \<open>C+\<close> over a class, a capture
  group, \<open>$\<close> (without the \<open>m\<close> flag: the end of the input) and \<open>\b\<close>. A non-capturing
  group \<open>(?:a)\<close> is \<open>a\<close> itself.
\<close>

datatype rx =
    Chr cclass
  | Str jsstring
  | Seq rx rx
  | Alt rx rx
  | Opt rx
  | Star cclass
  | Plus cclass
  | Cap rx
  | Eos
  | WordB

text \<open>
  A state of the matcher: the code unit before the current position (\<open>\b\<close> reads it), the
  input that is left, and the captures made so far, in the order of their groups.
\<close>

record mstate =
  prev :: "nat option"
  rest :: jsstring
  caps :: "jsstring list"

fun litEnds :: "bool \<Rightarrow> jsstring \<Rightarrow> nat option \<Rightarrow> jsstring \<Rightarrow> (nat option \<times> jsstring) option" where
  "litEnds ci [] p s = Some (p, s)"
| "litEnds ci (l # ls) p [] = None"
| "litEnds ci (l # ls) p (c # cs) =
     (if (if ci then lowerCase c = lowerCase l else c = l) then litEnds ci ls (Some c) cs else None)"

text \<open>The ways \<open>C*\<close> can end, the longest first: the order in which backtracking tries them.\<close>

fun starEnds :: "cclass \<Rightarrow> nat option \<Rightarrow> jsstring \<Rightarrow> (nat option \<times> jsstring) list" where
  "starEnds C p [] = [(p, [])]"
| "starEnds C p (c # cs) =
     (if inClass C c then starEnds C (Some c) cs @ [(p, c # cs)] else [(p, c # cs)])"

fun plusEnds :: "cclass \<Rightarrow> nat option \<Rightarrow> jsstring \<Rightarrow> (nat option \<times> jsstring) list" where
  "plusEnds C p [] = []"
| "plusEnds C p (c # cs) = (if inClass C c then starEnds C (Some c) cs else [])"

definition atWordBoundary :: "nat option \<Rightarrow> jsstring \<Rightarrow> bool" where
  "atWordBoundary p s \<longleftrightarrow>
     (case p of None \<Rightarrow> False | Some c \<Rightarrow> isWordChar c)
       \<noteq> (case s of [] \<Rightarrow> False | c # cs \<Rightarrow> isWordChar c)"

text \<open>
  \<open>ends ci r st\<close> lists every way the expression \<open>r\<close> can match at the state \<open>st\<close>, in
  the order in which ECMAScript's backtracking matcher tries them; \<open>ci\<close> is the \<open>i\<close> flag.
  The match that the matcher reports is the head of the list. A capture group appends
  the text it consumed; a group inside an alternative or option that did not take part
  leaves no entry, which is only the case for the last group of an expression here.
\<close>

fun ends :: "bool \<Rightarrow> rx \<Rightarrow> mstate \<Rightarrow> mstate list" where
  "ends ci (Chr C) st =
     (case rest st of
        [] \<Rightarrow> []
      | c # cs \<Rightarrow> if inClass C c then [st\<lparr>prev := Some c, rest := cs\<rparr>] else [])"
| "ends ci (Str l) st =
     (case litEnds ci l (prev st) (rest st) of
        None \<Rightarrow> []
      | Some (p, s) \<Rightarrow> [st\<lparr>prev := p, rest := s\<rparr>])"
| "ends ci (Seq a b) st = concat (map (ends ci b) (ends ci a st))"
| "ends ci (Alt a b) st = ends ci a st @ ends ci b st"
| "ends ci (Opt a) st = ends ci a st @ [st]"
| "ends ci (Star C) st = map (\<lambda>(p, s). st\<lparr>prev := p, rest := s\<rparr>) (starEnds C (prev st) (rest st))"
| "ends ci (Plus C) st = map (\<lambda>(p, s). st\<lparr>prev := p, rest := s\<rparr>) (plusEnds C (prev st) (rest st))"
| "ends ci (Cap a) st =
     map (\<lambda>st'. st'\<lparr>caps := caps st' @ [take (length (rest st) - length (rest st')) (rest st)]\<rparr>)
       (ends ci a st)"
| "ends ci Eos st = (if rest st = [] then [st] else [])"
| "ends ci WordB st = (if atWordBoundary (prev st) (rest st) then [st] else [])"

definition matchAt :: "bool \<Rightarrow> rx \<Rightarrow> nat option \<Rightarrow> jsstring \<Rightarrow> mstate option" where
  "matchAt ci r p s =
     (case ends ci r \<lparr>prev = p, rest = s, caps = []\<rparr> of [] \<Rightarrow> None | st # sts \<Rightarrow> Some st)"

text \<open>\<open>regex.test(s)\<close>: is there a match at some position of \<open>s\<close>, the end included.\<close>

fun searchFrom :: "bool \<Rightarrow> rx \<Rightarrow> nat option \<Rightarrow> jsstring \<Rightarrow> bool" where
  "searchFrom ci r p [] = (matchAt ci r p [] \<noteq> None)"
| "searchFrom ci r p (c # cs) =
     (if matchAt ci r p (c # cs) \<noteq> None then True else searchFrom ci r (Some c) cs)"

definition test :: "bool \<Rightarrow> rx \<Rightarrow> jsstring \<Rightarrow> bool" where
  "test ci r s = searchFrom ci r None s"

fun seqs :: "rx list \<Rightarrow> rx" where
  "seqs [] = Str []"
| "seqs [r] = r"
| "seqs (r # rs) = Seq r (seqs rs)"

fun alts :: "rx list \<Rightarrow> rx" where
  "alts [] = Str []"
| "alts [r] = r"
| "alts (r # rs) = Alt r (alts rs)"

text \<open>
  \<open>s.replace(regex, f)\<close> with the \<open>g\<close> flag: the leftmost match is replaced by what the
  callback \<open>f\<close> returns for the matched text and its captures, and the search goes on
  behind the match; after an empty match it moves one code unit on. A replacement
  string is a callback too: none of the replacement strings of the function holds a
  \<open>$\<close> pattern other than the \<open>$1\<close> and \<open>$2\<close> that the callbacks below spell out.
\<close>

function replaceAllFrom ::
  "bool \<Rightarrow> rx \<Rightarrow> (jsstring \<Rightarrow> jsstring list \<Rightarrow> jsstring) \<Rightarrow> nat option \<Rightarrow> jsstring \<Rightarrow> jsstring" where
  "replaceAllFrom ci r f p s =
     (case matchAt ci r p s of
        Some st \<Rightarrow>
          (if length (rest st) < length s
           then f (take (length s - length (rest st)) s) (caps st)
                  @ replaceAllFrom ci r f (prev st) (rest st)
           else f [] (caps st)
                  @ (case s of [] \<Rightarrow> [] | c # cs \<Rightarrow> c # replaceAllFrom ci r f (Some c) cs))
      | None \<Rightarrow> (case s of [] \<Rightarrow> [] | c # cs \<Rightarrow> c # replaceAllFrom ci r f (Some c) cs))"
  by pat_completeness auto
termination
  by (relation "measure (\<lambda>(ci, r, f, p, s). length s)") auto

declare replaceAllFrom.simps [simp del]

definition replaceAll ::
  "bool \<Rightarrow> rx \<Rightarrow> (jsstring \<Rightarrow> jsstring list \<Rightarrow> jsstring) \<Rightarrow> jsstring \<Rightarrow> jsstring" where
  "replaceAll ci r f s = replaceAllFrom ci r f None s"

text \<open>\<open>s.replace(regex, f)\<close> without the \<open>g\<close> flag replaces the leftmost match only.\<close>

fun replaceFirstFrom ::
  "bool \<Rightarrow> rx \<Rightarrow> (jsstring \<Rightarrow> jsstring list \<Rightarrow> jsstring) \<Rightarrow> nat option \<Rightarrow> jsstring \<Rightarrow> jsstring" where
  "replaceFirstFrom ci r f p [] =
     (case matchAt ci r p [] of Some st \<Rightarrow> f [] (caps st) | None \<Rightarrow> [])"
| "replaceFirstFrom ci r f p (c # cs) =
     (case matchAt ci r p (c # cs) of
        Some st \<Rightarrow> f (take (length (c # cs) - length (rest st)) (c # cs)) (caps st) @ rest st
      | None \<Rightarrow> c # replaceFirstFrom ci r f (Some c) cs)"

definition replaceFirst ::
  "bool \<Rightarrow> rx \<Rightarrow> (jsstring \<Rightarrow> jsstring list \<Rightarrow> jsstring) \<Rightarrow> jsstring \<Rightarrow> jsstring" where
  "replaceFirst ci r f s = replaceFirstFrom ci r f None s"

subsection \<open>The passes\<close>

text \<open>
  The value passes compute with JavaScript Numbers, \<open>parseFloat(px) / fontScale / 16\<close>,
  \<open>parseFloat(pt) / fontScale / 12\<close>, \<open>(parseFloat(d) * vw) / 100\<close> and
  \<open>(parseFloat(d) * vh) / 100\<close>, and print the result as a string. Floating-point
  arithmetic and its printing are not modelled: the four maps from the captured digits
  to the printed number are a parameter. They stand for \<open>vw\<close>, \<open>vh\<close> and the platform
  (\<open>fontScale\<close> is 1.25 on iOS and Android, 1 elsewhere).
\<close>

record numerics =
  pxToRem :: "jsstring \<Rightarrow> jsstring"
  ptToRem :: "jsstring \<Rightarrow> jsstring"
  vwToPx :: "jsstring \<Rightarrow> jsstring"
  vhToPx :: "jsstring \<Rightarrow> jsstring"

text \<open>A literal text in an expression.\<close>

definition lit :: "string \<Rightarrow> rx" where
  "lit s = Str (utf16 s)"

text \<open>A capture group by its index; a group that took no part reads as the empty text.\<close>

definition grp :: "jsstring list \<Rightarrow> nat \<Rightarrow> jsstring" where
  "grp cs i = (if i < length cs then cs ! i else [])"

text \<open>
  \<^verbatim>\<open>
  const ruleRegex = /([^{]+)({[^}]+})/g;
  css = css.replace(ruleRegex, (match, selector, block) => { ... });
  \<close>
\<close>

definition ruleRegex :: rx where
  "ruleRegex =
     seqs [Cap (Plus (NoneOf (utf16 ''{''))),
           Cap (seqs [lit ''{'', Plus (NoneOf (utf16 ''}'')), lit ''}''])]"

definition eachRule ::
  "(jsstring \<Rightarrow> jsstring \<Rightarrow> jsstring \<Rightarrow> jsstring) \<Rightarrow> jsstring \<Rightarrow> jsstring" where
  "eachRule f css = replaceAll False ruleRegex (\<lambda>m cs. f m (grp cs 0) (grp cs 1)) css"

text \<open>
  Shapes that recur in the expressions: \<open>name\s*:\<close>, \<open>name\s*:\s*value\<close> and
  \<open>name\s*:\s*value\s*[;$]\<close>; inside brackets \<open>$\<close> is the dollar sign.
\<close>

definition propColon :: "string \<Rightarrow> rx" where
  "propColon name = seqs [lit name, Star Space, lit '':'']"

definition decl :: "string \<Rightarrow> string \<Rightarrow> rx" where
  "decl name v = seqs [lit name, Star Space, lit '':'', Star Space, lit v]"

definition declEnd :: "string \<Rightarrow> string \<Rightarrow> rx" where
  "declEnd name v = seqs [decl name v, Star Space, Chr (OneOf (utf16 '';$''))]"

text \<open>\<^verbatim>\<open>block.replace(/}$/, text)\<close>\<close>

definition appendToBlock :: "string \<Rightarrow> jsstring \<Rightarrow> jsstring" where
  "appendToBlock text block = replaceFirst False (seqs [lit ''}'', Eos]) (\<lambda>m cs. utf16 text) block"

text \<open>
  \<^verbatim>\<open>
  css = css.replace(ruleRegex, (match, selector, block) => {
    const hasTextAlignCenter = /text-align\s*:\s*center\s*[;$]/.test(block);
    const hasTextIndentZero = /text-indent\s*:\s*0(?:\.0+)?(?:px|em|rem|%)?\s*[;$]/.test(block);
    if (hasTextAlignCenter && hasTextIndentZero) {
      block = block.replace(/(text-align\s*:\s*center)(\s*;|\s*$)/g, '$1 !important$2');
      block = block.replace(
        /(text-indent\s*:\s*0(?:\.0+)?(?:px|em|rem|%)?)(\s*;|\s*$)/g,
        '$1 !important$2',
      );
      return selector + block;
    }
    return match;
  });
  \<close>
\<close>

definition textIndentZero :: rx where
  "textIndentZero =
     seqs [lit ''text-indent'', Star Space, lit '':'', Star Space, lit ''0'',
           Opt (Seq (lit ''.'') (Plus (OneOf (utf16 ''0'')))),
           Opt (alts [lit ''px'', lit ''em'', lit ''rem'', lit ''%''])]"

definition declTail :: rx where
  "declTail = Cap (Alt (Seq (Star Space) (lit '';'')) (Seq (Star Space) Eos))"

definition important :: "jsstring \<Rightarrow> jsstring list \<Rightarrow> jsstring" where
  "important m cs = grp cs 0 @ utf16 '' !important'' @ grp cs 1"

definition alignRule :: "jsstring \<Rightarrow> jsstring \<Rightarrow> jsstring \<Rightarrow> jsstring" where
  "alignRule m selector block =
     (let hasTextAlignCenter = test False (declEnd ''text-align'' ''center'') block;
          hasTextIndentZero = test False (seqs [textIndentZero, Star Space, Chr (OneOf (utf16 '';$''))]) block
      in if hasTextAlignCenter \<and> hasTextIndentZero
         then selector
              @ replaceAll False (Seq (Cap textIndentZero) declTail) important
                  (replaceAll False (Seq (Cap (decl ''text-align'' ''center'')) declTail) important block)
         else m)"

text \<open>
  \<^verbatim>\<open>
  css = css.replace(ruleRegex, (match, selector, block) => {
    const hasWhiteSpaceNowrap = /white-space\s*:\s*nowrap\s*[;$]/.test(block);
    if (hasWhiteSpaceNowrap) {
      if (!/overflow\s*:/.test(block)) {
        block = block.replace(/}$/, ' overflow: clip !important; }');
      }
      return selector + block;
    }
    return match;
  });
  \<close>
\<close>

definition nowrapRule :: "jsstring \<Rightarrow> jsstring \<Rightarrow> jsstring \<Rightarrow> jsstring" where
  "nowrapRule m selector block =
     (if test False (declEnd ''white-space'' ''nowrap'') block
      then selector
           @ (if \<not> test False (propColon ''overflow'') block
              then appendToBlock '' overflow: clip !important; }'' block else block)
      else m)"

text \<open>
  \<^verbatim>\<open>
  if (isInlineStyle) {
    const hasPageBreakAfterAlways = /page-break-after\s*:\s*always\s*[;]?/.test(css);
    if (hasPageBreakAfterAlways && !/margin-bottom\s*:/.test(css)) {
      css = css.replace(/;?\s*$/, '') + '; margin-bottom: calc(var(--available-height) * 1px)';
    }
  } else {
    css = css.replace(ruleRegex, (match, selector, block) => {
      const hasPageBreakAfterAlways = /page-break-after\s*:\s*always\s*[;$]/.test(block);
      if (hasPageBreakAfterAlways) {
        if (!/margin-bottom\s*:/.test(block)) {
          block = block.replace(/}$/, ' margin-bottom: calc(var(--available-height) * 1px); }');
        }
        return selector + block;
      }
      return match;
    });
  }
  \<close>
\<close>

definition pageBreakInline :: "jsstring \<Rightarrow> jsstring" where
  "pageBreakInline css =
     (if test False (seqs [decl ''page-break-after'' ''always'', Star Space, Opt (Chr (OneOf (utf16 '';'')))]) css
         \<and> \<not> test False (propColon ''margin-bottom'') css
      then replaceFirst False (seqs [Opt (lit '';''), Star Space, Eos]) (\<lambda>m cs. []) css
           @ utf16 ''; margin-bottom: calc(var(--available-height) * 1px)''
      else css)"

definition pageBreakRule :: "jsstring \<Rightarrow> jsstring \<Rightarrow> jsstring \<Rightarrow> jsstring" where
  "pageBreakRule m selector block =
     (if test False (declEnd ''page-break-after'' ''always'') block
      then selector
           @ (if \<not> test False (propColon ''margin-bottom'') block
              then appendToBlock '' margin-bottom: calc(var(--available-height) * 1px); }'' block
              else block)
      else m)"

text \<open>
  \<^verbatim>\<open>
  css = css.replace(ruleRegex, (_, selector, block) => {
    if (vertical) return selector + block;
    const directions: string[] = [];
    let hasBleed = false;
    for (const dir of ['top', 'bottom', 'left', 'right']) {
      const bleedRegex = new RegExp(`duokan-bleed\\s*:\\s*[^;]*${dir}[^;]*;`);
      const marginRegex = new RegExp(`margin-${dir}\\s*:`);
      if (bleedRegex.test(block) && !marginRegex.test(block)) {
        hasBleed = true;
        directions.push(dir);
        block = block.replace(
          /}$/,
          ` margin-${dir}: calc(-1 * var(--page-margin-${dir})) !important; }`,
        );
      }
    }
    if (hasBleed) {
      if (!/position\s*:/.test(block)) {
        block = block.replace(/}$/, ' position: relative !important; }');
      }
      if (!/overflow\s*:/.test(block)) {
        block = block.replace(/}$/, ' overflow: hidden !important; }');
      }
      if (!/display\s*:/.test(block)) {
        block = block.replace(/}$/, ' display: flow-root !important; }');
      }
      if (!/width\s*:/.test(block) && directions.includes('left') && directions.includes('right')) {
        block = block
          .replace(
            /}$/,
            ' width: calc(var(--_max-width) + var(--page-margin-left) + var(--page-margin-right)) !important; }',
          )
          .replace(/}$/, ' max-width: calc(var(--full-width) * 1px) !important; }');
      }
      if (
        !/height\s*:/.test(block) &&
        directions.includes('top') &&
        directions.includes('bottom')
      ) {
        block = block
          .replace(
            /}$/,
            ' height: calc(100% + var(--page-margin-top) + var(--page-margin-bottom)) !important; }',
          )
          .replace(/}$/, ' max-height: calc(var(--full-height) * 1px) !important; }');
      }
    }
    return selector + block;
  });
  \<close>
  The loop over the four directions is a fold over the three variables it updates.
\<close>

definition bleedRegex :: "string \<Rightarrow> rx" where
  "bleedRegex dir =
     seqs [lit ''duokan-bleed'', Star Space, lit '':'', Star Space, Star (NoneOf (utf16 '';'')), lit dir,
           Star (NoneOf (utf16 '';'')), lit '';'']"

record bleed =
  blockOf :: jsstring
  hasBleed :: bool
  directions :: "string list"

definition bleedDir :: "bleed \<Rightarrow> string \<Rightarrow> bleed" where
  "bleedDir b dir =
     (if test False (bleedRegex dir) (blockOf b) \<and> \<not> test False (propColon (''margin-'' @ dir)) (blockOf b)
      then \<lparr>blockOf = appendToBlock ('' margin-'' @ dir @ '': calc(-1 * var(--page-margin-'' @ dir
                            @ '')) !important; }'') (blockOf b),
            hasBleed = True,
            directions = directions b @ [dir]\<rparr>
      else b)"

definition unlessSet :: "string \<Rightarrow> string \<Rightarrow> jsstring \<Rightarrow> jsstring" where
  "unlessSet name text block =
     (if \<not> test False (propColon name) block then appendToBlock text block else block)"

definition bleedRule :: "bool \<Rightarrow> jsstring \<Rightarrow> jsstring \<Rightarrow> jsstring \<Rightarrow> jsstring" where
  "bleedRule vertical m selector block =
     (if vertical then selector @ block
      else
        (let b = foldl bleedDir \<lparr>blockOf = block, hasBleed = False, directions = []\<rparr>
                   [''top'', ''bottom'', ''left'', ''right''];
             block1 = blockOf b
         in if hasBleed b then
              (let block2 = unlessSet ''position'' '' position: relative !important; }'' block1;
                   block3 = unlessSet ''overflow'' '' overflow: hidden !important; }'' block2;
                   block4 = unlessSet ''display'' '' display: flow-root !important; }'' block3;
                   block5 =
                     (if \<not> test False (propColon ''width'') block4 \<and> ''left'' \<in> set (directions b)
                         \<and> ''right'' \<in> set (directions b)
                      then appendToBlock '' max-width: calc(var(--full-width) * 1px) !important; }''
                             (appendToBlock
                                '' width: calc(var(--_max-width) + var(--page-margin-left) + var(--page-margin-right)) !important; }''
                                block4)
                      else block4);
                   block6 =
                     (if \<not> test False (propColon ''height'') block5 \<and> ''top'' \<in> set (directions b)
                         \<and> ''bottom'' \<in> set (directions b)
                      then appendToBlock '' max-height: calc(var(--full-height) * 1px) !important; }''
                             (appendToBlock
                                '' height: calc(100% + var(--page-margin-top) + var(--page-margin-bottom)) !important; }''
                                block5)
                      else block5)
               in selector @ block6)
            else selector @ block1))"

text \<open>
  \<^verbatim>\<open>
  css = css.replace(ruleRegex, (_, selector, block) => {
    if (/\bbody\b/i.test(selector)) {
      const hasSerifFont = /font-family\s*:\s*serif\s*[;$]/.test(block);
      const hasSansSerifFont = /font-family\s*:\s*sans-serif\s*[;$]/.test(block);
      if (hasSerifFont) {
        block = block.replace(/font-family\s*:\s*serif\s*([;$])/gi, 'font-family: unset$1');
      }
      if (hasSansSerifFont) {
        block = block.replace(/font-family\s*:\s*sans-serif\s*([;$])/gi, 'font-family: unset$1');
      }
    }
    return selector + block;
  });
  \<close>
\<close>

definition bodyRule :: "jsstring \<Rightarrow> jsstring \<Rightarrow> jsstring \<Rightarrow> jsstring" where
  "bodyRule m selector block =
     (if test True (seqs [WordB, lit ''body'', WordB]) selector then
        (let hasSerifFont = test False (declEnd ''font-family'' ''serif'') block;
             hasSansSerifFont = test False (declEnd ''font-family'' ''sans-serif'') block;
             block1 = (if hasSerifFont
                       then replaceAll True
                              (seqs [decl ''font-family'' ''serif'', Star Space, Cap (Chr (OneOf (utf16 '';$'')))])
                              (\<lambda>m cs. utf16 ''font-family: unset'' @ grp cs 0) block
                       else block);
             block2 = (if hasSansSerifFont
                       then replaceAll True
                              (seqs [decl ''font-family'' ''sans-serif'', Star Space, Cap (Chr (OneOf (utf16 '';$'')))])
                              (\<lambda>m cs. utf16 ''font-family: unset'' @ grp cs 0) block1
                       else block1)
         in selector @ block2)
      else selector @ block)"

text \<open>
  \<^verbatim>\<open>
  css = css
    .replace(/font-size\s*:\s*xx-small/gi, 'font-size: 0.6rem')
    .replace(/font-size\s*:\s*x-small/gi, 'font-size: 0.75rem')
    .replace(/font-size\s*:\s*small/gi, 'font-size: 0.875rem')
    .replace(/font-size\s*:\s*medium/gi, 'font-size: 1rem')
    .replace(/font-size\s*:\s*large/gi, 'font-size: 1.2rem')
    .replace(/font-size\s*:\s*x-large/gi, 'font-size: 1.5rem')
    .replace(/font-size\s*:\s*xx-large/gi, 'font-size: 2rem')
    .replace(/font-size\s*:\s*xxx-large/gi, 'font-size: 3rem')
    .replace(/font-size\s*:\s*(\d+(?:\.\d+)?)px/gi, (_, px) => {
      const rem = parseFloat(px) / fontScale / 16;
      return `font-size: ${rem}rem`;
    })
    .replace(/font-size\s*:\s*(\d+(?:\.\d+)?)pt/gi, (_, pt) => {
      const rem = parseFloat(pt) / fontScale / 12;
      return `font-size: ${rem}rem`;
    })
    .replace(/font-size\s*:\s*(\d*\.?\d+)(px|rem|em|%)?/gi, (_, size, unit = 'px') => {
      return `font-size: max(${size}${unit}, var(--min-font-size, 8px))`;
    })
    .replace(/(\d*\.?\d+)vw/gi, (_, d) => (parseFloat(d) * vw) / 100 + 'px')
    .replace(/(\d*\.?\d+)vh/gi, (_, d) => (parseFloat(d) * vh) / 100 + 'px')
    .replace(/([\s;])-webkit-user-select\s*:\s*none/gi, '$1-webkit-user-select: unset')
    .replace(/([\s;])-moz-user-select\s*:\s*none/gi, '$1-moz-user-select: unset')
    .replace(/([\s;])-ms-user-select\s*:\s*none/gi, '$1-ms-user-select: unset')
    .replace(/([\s;])-o-user-select\s*:\s*none/gi, '$1-o-user-select: unset')
    .replace(/([\s;])user-select\s*:\s*none/gi, '$1user-select: unset')
    .replace(/([\s;])font-family\s*:\s*monospace/gi, '$1font-family: var(--monospace)')
    .replace(/([\s;])font-weight\s*:\s*normal/gi, '$1font-weight: var(--font-weight)')
    .replace(/([\s;])color\s*:\s*black/gi, '$1color: var(--theme-fg-color)')
    .replace(/([\s;])color\s*:\s*#000000/gi, '$1color: var(--theme-fg-color)')
    .replace(/([\s;])color\s*:\s*#000/gi, '$1color: var(--theme-fg-color)')
    .replace(/([\s;])color\s*:\s*rgb\(0,\s*0,\s*0\)/gi, '$1color: var(--theme-fg-color)');
  return css;
  \<close>
  The default \<open>unit = 'px'\<close> applies when the second group took no part in the match.
\<close>

definition lead :: "string \<Rightarrow> string \<Rightarrow> rx" where
  "lead name v = Seq (Cap (Chr (SpaceOr (utf16 '';'')))) (decl name v)"

definition number1 :: rx where
  "number1 = Cap (Seq (Plus Digit) (Opt (Seq (lit ''.'') (Plus Digit))))"

definition number2 :: rx where
  "number2 = Cap (seqs [Star Digit, Opt (lit ''.''), Plus Digit])"

definition substitutions ::
  "numerics \<Rightarrow> (rx \<times> (jsstring \<Rightarrow> jsstring list \<Rightarrow> jsstring)) list" where
  "substitutions N =
     [(decl ''font-size'' ''xx-small'', \<lambda>m cs. utf16 ''font-size: 0.6rem''),
      (decl ''font-size'' ''x-small'', \<lambda>m cs. utf16 ''font-size: 0.75rem''),
      (decl ''font-size'' ''small'', \<lambda>m cs. utf16 ''font-size: 0.875rem''),
      (decl ''font-size'' ''medium'', \<lambda>m cs. utf16 ''font-size: 1rem''),
      (decl ''font-size'' ''large'', \<lambda>m cs. utf16 ''font-size: 1.2rem''),
      (decl ''font-size'' ''x-large'', \<lambda>m cs. utf16 ''font-size: 1.5rem''),
      (decl ''font-size'' ''xx-large'', \<lambda>m cs. utf16 ''font-size: 2rem''),
      (decl ''font-size'' ''xxx-large'', \<lambda>m cs. utf16 ''font-size: 3rem''),
      (seqs [propColon ''font-size'', Star Space, number1, lit ''px''],
         \<lambda>m cs. utf16 ''font-size: '' @ pxToRem N (grp cs 0) @ utf16 ''rem''),
      (seqs [propColon ''font-size'', Star Space, number1, lit ''pt''],
         \<lambda>m cs. utf16 ''font-size: '' @ ptToRem N (grp cs 0) @ utf16 ''rem''),
      (seqs [propColon ''font-size'', Star Space, number2,
             Opt (Cap (alts [lit ''px'', lit ''rem'', lit ''em'', lit ''%'']))],
         \<lambda>m cs. utf16 ''font-size: max('' @ grp cs 0 @ (if length cs < 2 then utf16 ''px'' else grp cs 1)
                  @ utf16 '', var(--min-font-size, 8px))''),
      (Seq number2 (lit ''vw''), \<lambda>m cs. vwToPx N (grp cs 0) @ utf16 ''px''),
      (Seq number2 (lit ''vh''), \<lambda>m cs. vhToPx N (grp cs 0) @ utf16 ''px''),
      (lead ''-webkit-user-select'' ''none'', \<lambda>m cs. grp cs 0 @ utf16 ''-webkit-user-select: unset''),
      (lead ''-moz-user-select'' ''none'', \<lambda>m cs. grp cs 0 @ utf16 ''-moz-user-select: unset''),
      (lead ''-ms-user-select'' ''none'', \<lambda>m cs. grp cs 0 @ utf16 ''-ms-user-select: unset''),
      (lead ''-o-user-select'' ''none'', \<lambda>m cs. grp cs 0 @ utf16 ''-o-user-select: unset''),
      (lead ''user-select'' ''none'', \<lambda>m cs. grp cs 0 @ utf16 ''user-select: unset''),
      (lead ''font-family'' ''monospace'', \<lambda>m cs. grp cs 0 @ utf16 ''font-family: var(--monospace)''),
      (lead ''font-weight'' ''normal'', \<lambda>m cs. grp cs 0 @ utf16 ''font-weight: var(--font-weight)''),
      (lead ''color'' ''black'', \<lambda>m cs. grp cs 0 @ utf16 ''color: var(--theme-fg-color)''),
      (lead ''color'' ''#000000'', \<lambda>m cs. grp cs 0 @ utf16 ''color: var(--theme-fg-color)''),
      (lead ''color'' ''#000'', \<lambda>m cs. grp cs 0 @ utf16 ''color: var(--theme-fg-color)''),
      (seqs [Cap (Chr (SpaceOr (utf16 '';''))), propColon ''color'', Star Space, lit ''rgb(0,'', Star Space,
             lit ''0,'', Star Space, lit ''0)''],
         \<lambda>m cs. grp cs 0 @ utf16 ''color: var(--theme-fg-color)'')]"

definition substituteValues :: "numerics \<Rightarrow> jsstring \<Rightarrow> jsstring" where
  "substituteValues N css = foldl (\<lambda>s (r, f). replaceAll True r f s) css (substitutions N)"

text \<open>
  \<^verbatim>\<open>
  export const transformStylesheet = (css: string, vw: number, vh: number, vertical: boolean) => {
    const isMobile = ['ios', 'android'].includes(getOSPlatform());
    const fontScale = isMobile ? 1.25 : 1;
    const isInlineStyle = !css.includes('{');
    ...
  \<close>
  \<open>isInlineStyle\<close> is read from the text as it came in; every pass works on the result
  of the pass before it.
\<close>

definition transformStylesheet :: "numerics \<Rightarrow> jsstring \<Rightarrow> bool \<Rightarrow> jsstring" where
  "transformStylesheet N css vertical =
     (let isInlineStyle = of_char CHR ''{'' \<notin> set css;
          css1 = eachRule alignRule css;
          css2 = eachRule nowrapRule css1;
          css3 = (if isInlineStyle then pageBreakInline css2 else eachRule pageBreakRule css2);
          css4 = eachRule (bleedRule vertical) css3;
          css5 = eachRule bodyRule css4
      in substituteValues N css5)"

subsection \<open>Texts that a match must hold\<close>

text \<open>
  \<open>holds ci l s\<close>: the ASCII text \<open>l\<close> occurs in \<open>s\<close>, in any letter case when \<open>ci\<close> is
  set. \<open>mentions r l\<close>: every match of the expression \<open>r\<close> runs through the literal \<open>l\<close>.
\<close>

definition folded :: "bool \<Rightarrow> jsstring \<Rightarrow> jsstring" where
  "folded ci s = (if ci then map lowerCase s else s)"

definition holds :: "bool \<Rightarrow> string \<Rightarrow> jsstring \<Rightarrow> bool" where
  "holds ci l s = sublist (folded ci (utf16 l)) (folded ci s)"

fun mentions :: "rx \<Rightarrow> jsstring \<Rightarrow> bool" where
  "mentions (Str l') l = (l' = l)"
| "mentions (Seq a b) l = (mentions a l \<or> mentions b l)"
| "mentions (Alt a b) l = (mentions a l \<and> mentions b l)"
| "mentions (Cap a) l = mentions a l"
| "mentions r l = False"

text \<open>
  Every expression of the value passes runs through one of these words, the vendor
  forms of \<open>user-select\<close> through their own name.
\<close>

definition valueWords :: "string list" where
  "valueWords = [''font-size'', ''vw'', ''vh'', ''user-select'', ''font-family'', ''font-weight'',
     ''color'']"

definition longWords :: "string list" where
  "longWords = valueWords @ [''-webkit-user-select'', ''-moz-user-select'', ''-ms-user-select'',
     ''-o-user-select'']"

text \<open>The declaration that the inline page-break pass appends, behind \<open>; \<close>.\<close>

definition shim :: string where
  "shim = ''margin-bottom: calc(var(--available-height) * 1px)''"

definition lastOr :: "nat option \<Rightarrow> jsstring \<Rightarrow> nat option" where
  "lastOr p w = (if w = [] then p else Some (last w))"

text \<open>
  A necessary condition for a match of \<open>r\<close> to start at the code unit \<open>c\<close>, read off the
  head of the expression. It serves the evaluation of searches on long texts.
\<close>

fun canStart :: "bool \<Rightarrow> rx \<Rightarrow> nat \<Rightarrow> bool" where
  "canStart ci (Chr C) c = inClass C c"
| "canStart ci (Str []) c = True"
| "canStart ci (Str (l # ls)) c = (if ci then lowerCase c = lowerCase l else c = l)"
| "canStart ci (Seq a b) c = canStart ci a c"
| "canStart ci (Alt a b) c = (canStart ci a c \<or> canStart ci b c)"
| "canStart ci (Opt a) c = True"
| "canStart ci (Star C) c = True"
| "canStart ci (Plus C) c = inClass C c"
| "canStart ci (Cap a) c = canStart ci a c"
| "canStart ci Eos c = False"
| "canStart ci WordB c = True"

section \<open>Results\<close>

subsection \<open>Font stacks\<close>

lemma serifFonts_parts:
  "serifFonts c serif d = serifFront c serif d @ lastSerifAppended c d @ FALLBACK_FONTS c"
  by (simp add: serifFonts_def serifFront_def lastSerifAppended_def)

lemma chosen_font_first:
  "hd (serifFonts c serif d) = serif"
  "hd (sansSerifFonts c sansSerif d) = sansSerif"
  "hd (monospaceFonts c monospace) = monospace"
  by (simp_all add: serifFonts_def sansSerifFonts_def monospaceFonts_def)

text \<open>
  C2. The claim: each of the three lists has the chosen font first and no font name
  twice. The chosen font is first (\<open>chosen_font_first\<close>), but the serif list can name a
  font twice: the filter that re-appends the last-resort fonts does not leave out the
  chosen serif font, as the two filters before it do. Whenever Georgia is in
  \<open>SERIF_FONTS\<close>, the user's serif font is Georgia and the CJK default is not a
  last-resort font, Georgia stands first and again among the re-appended fonts.
\<close>

theorem serif_stack_repeats_chosen_font:
  "''Georgia'' \<in> set (SERIF_FONTS c) \<Longrightarrow> d \<notin> set lastSerifFonts \<Longrightarrow>
   \<not> distinct (serifFonts c ''Georgia'' d)"
  by (simp add: serifFonts_def lastSerifFonts_def)

theorem serif_stack_repeats_chosen_font_witness:
  "''Georgia'' \<in> set (SERIF_FONTS sampleConstants)
   \<and> ''LXGW WenKai GB Screen'' \<notin> set lastSerifFonts
   \<and> \<not> distinct (serifFonts sampleConstants ''Georgia'' ''LXGW WenKai GB Screen'')"
proof -
  have a: "''Georgia'' \<in> set (SERIF_FONTS sampleConstants)"
    by (simp add: sampleConstants_def)
  have b: "''LXGW WenKai GB Screen'' \<notin> set lastSerifFonts"
    by (simp add: lastSerifFonts_def)
  from serif_stack_repeats_chosen_font [OF a b] a b show ?thesis by simp
qed

text \<open>
  C3 (as amended). The fallback fonts end the serif and the sans-serif list. The
  monospace list is the chosen font followed by the other \<open>MONOSPACE_FONTS\<close> and nothing
  else: no fallback font is appended to it.
\<close>

theorem fallback_fonts_appended:
  "suffix (FALLBACK_FONTS c) (serifFonts c serif d)
   \<and> suffix (FALLBACK_FONTS c) (sansSerifFonts c sansSerif d)
   \<and> monospaceFonts c monospace
       = monospace # filter (\<lambda>font. font \<noteq> monospace) (MONOSPACE_FONTS c)"
  by (simp add: serifFonts_def sansSerifFonts_def monospaceFonts_def suffix_def)

text \<open>
  C3 as stated fails for the monospace list: with a non-empty \<open>FALLBACK_FONTS\<close> the list
  does not end with the fallback fonts.
\<close>

theorem monospace_stack_lacks_fallback:
  "\<not> suffix (FALLBACK_FONTS sampleConstants) (monospaceFonts sampleConstants ''Fira Code'')"
  by (simp add: monospaceFonts_def sampleConstants_def suffix_def append_eq_Cons_conv
        append_eq_append_conv2 Cons_eq_append_conv)

text \<open>
  C8 (as amended). Georgia, and likewise Times New Roman, is re-appended exactly when it
  belongs to \<open>SERIF_FONTS\<close> and the CJK default font is neither of the two last-resort
  fonts; the re-appended fonts stand between the rest of the stack and the fallback
  fonts.
\<close>

theorem last_resort_reappended:
  "(''Georgia'' \<in> set (lastSerifAppended c d)
      \<longleftrightarrow> ''Georgia'' \<in> set (SERIF_FONTS c) \<and> d \<notin> set lastSerifFonts)
   \<and> (''Times New Roman'' \<in> set (lastSerifAppended c d)
      \<longleftrightarrow> ''Times New Roman'' \<in> set (SERIF_FONTS c) \<and> d \<notin> set lastSerifFonts)
   \<and> serifFonts c serif d = serifFront c serif d @ lastSerifAppended c d @ FALLBACK_FONTS c"
  by (auto simp add: serifFonts_parts lastSerifAppended_def lastSerifFonts_def)

text \<open>
  C8 as stated fails when the CJK default is the other last-resort font: with Georgia as
  the CJK default, Times New Roman belongs to \<open>SERIF_FONTS\<close> and is not the CJK default,
  yet it is not re-appended, and so is nowhere in the stack.
\<close>

theorem times_new_roman_not_reappended:
  "\<not> (''Times New Roman'' \<in> set (lastSerifAppended sampleConstants ''Georgia'')
        \<longleftrightarrow> ''Times New Roman'' \<in> set (SERIF_FONTS sampleConstants)
              \<and> ''Times New Roman'' \<noteq> ''Georgia'')
   \<and> ''Times New Roman'' \<notin> set (serifFonts sampleConstants ''Bitter'' ''Georgia'')"
  by (simp add: serifFonts_def lastSerifAppended_def lastSerifFonts_def sampleConstants_def
       )

subsection \<open>The cursor\<close>

text \<open>
  C7. On a sequence of length \<open>N\<close> and from any cursor position, \<open>goTo(N)\<close> and
  \<open>goTo(-1)\<close> return null and leave the iterator as it was; \<open>next()\<close> with the cursor on
  the last index \<open>N - 1\<close> returns null and leaves the iterator as it was.
\<close>

theorem navigation_bounds:
  "goTo it (int (length (blocks it))) = (None, it)
   \<and> goTo it (- 1) = (None, it)
   \<and> nextBlock (it\<lparr>index := int (length (blocks it)) - 1\<rparr>)
       = (None, it\<lparr>index := int (length (blocks it)) - 1\<rparr>)"
  by (simp add: goTo_def nextBlock_def)

text \<open>
  C9. A new iterator has the cursor at \<open>-1\<close> and no current block; \<open>prev()\<close> returns null
  and leaves it there; \<open>next()\<close> on a non-empty sequence returns the first block and
  puts the cursor on index \<open>0\<close>.
\<close>

theorem fresh_iterator_unpositioned:
  "currentIndex (newParagraphIterator bs) = - 1
   \<and> current (newParagraphIterator bs) = None
   \<and> prevBlock (newParagraphIterator bs) = (None, newParagraphIterator bs)
   \<and> nextBlock (newParagraphIterator (b # bs))
       = (Some b, (newParagraphIterator (b # bs))\<lparr>index := 0\<rparr>)"
  by (simp add: currentIndex_def current_def newParagraphIterator_def blockAt_def
        prevBlock_def nextBlock_def)

subsection \<open>Lookup by range\<close>

lemma scanByRange_found:
  "scanByRange bs t k = Some (i, b) \<Longrightarrow>
     k \<le> i \<and> i < k + length bs \<and> bs ! (i - k) = b
     \<and> rroot b = rroot t \<and> rstart t \<le> rend b \<and> rstart b \<le> rend t
     \<and> (\<forall>j. k \<le> j \<and> j < i \<longrightarrow>
           \<not> (rroot (bs ! (j - k)) = rroot t \<and> rstart t \<le> rend (bs ! (j - k))
               \<and> rstart (bs ! (j - k)) \<le> rend t))"
proof (induction bs arbitrary: k)
  case Nil
  then show ?case by simp
next
  case (Cons a bs)
  show ?case
  proof (cases "rroot a = rroot t \<and> rstart t \<le> rend a \<and> rstart a \<le> rend t")
    case True
    with Cons.prems have "i = k" "b = a"
      by (auto simp: position_def split: if_splits)
    with True show ?thesis by simp
  next
    case False
    with Cons.prems have rec: "scanByRange bs t (Suc k) = Some (i, b)"
      by (auto simp: position_def split: if_splits)
    from Cons.IH [OF rec] have ih:
      "Suc k \<le> i" "i < Suc k + length bs" "bs ! (i - Suc k) = b"
      "rroot b = rroot t" "rstart t \<le> rend b" "rstart b \<le> rend t"
      "\<forall>j. Suc k \<le> j \<and> j < i \<longrightarrow>
           \<not> (rroot (bs ! (j - Suc k)) = rroot t \<and> rstart t \<le> rend (bs ! (j - Suc k))
               \<and> rstart (bs ! (j - Suc k)) \<le> rend t)"
      by auto
    from ih(1) have "i - k = Suc (i - Suc k)" by arith
    with ih(3) have nth: "(a # bs) ! (i - k) = b" by simp
    have first: "\<forall>j. k \<le> j \<and> j < i \<longrightarrow>
           \<not> (rroot ((a # bs) ! (j - k)) = rroot t \<and> rstart t \<le> rend ((a # bs) ! (j - k))
               \<and> rstart ((a # bs) ! (j - k)) \<le> rend t)"
    proof (intro allI impI)
      fix j assume j: "k \<le> j \<and> j < i"
      show "\<not> (rroot ((a # bs) ! (j - k)) = rroot t \<and> rstart t \<le> rend ((a # bs) ! (j - k))
               \<and> rstart ((a # bs) ! (j - k)) \<le> rend t)"
      proof (cases "j = k")
        case True
        with False show ?thesis by simp
      next
        case neq: False
        with j have "Suc k \<le> j" by simp
        moreover from this have "j - k = Suc (j - Suc k)" by arith
        then have "(a # bs) ! (j - k) = bs ! (j - Suc k)" by simp
        ultimately show ?thesis using ih(7) j by auto
      qed
    qed
    from ih nth first show ?thesis by auto
  qed
qed

text \<open>
  C1 (as amended). The block that the boundary-point scan of \<open>findByRangeAsync\<close> returns
  is the first block of the target's document that overlaps or touches the target
  range: its end is at or after the start of the target and its start is at or before
  the end of the target. The cursor is put on it.
\<close>

theorem scan_returns_first_overlapping_block:
  "scanByRange (blocks it) t 0 = Some (i, b) \<Longrightarrow>
     findByRangeAsync it (Some t) = (Some b, it\<lparr>index := int i\<rparr>)
     \<and> i < length (blocks it) \<and> blocks it ! i = b
     \<and> rroot b = rroot t \<and> rstart t \<le> rend b \<and> rstart b \<le> rend t
     \<and> (\<forall>j<i. \<not> (rroot (blocks it ! j) = rroot t \<and> rstart t \<le> rend (blocks it ! j)
                  \<and> rstart (blocks it ! j) \<le> rend t))"
  using scanByRange_found [of "blocks it" t 0 i b]
  by (simp add: findByRangeAsync_def)

theorem scan_returns_first_overlapping_block_witness:
  "scanByRange (blocks (newParagraphIterator
       [\<lparr>rroot = 0, rstart = 2, rend = 4\<rparr>, \<lparr>rroot = 0, rstart = 5, rend = 7\<rparr>]))
     \<lparr>rroot = 0, rstart = 5, rend = 6, startContainer = TreeNode 0 5 6\<rparr> 0
     = Some (1, \<lparr>rroot = 0, rstart = 5, rend = 7\<rparr>)
   \<and> findByRangeAsync (newParagraphIterator
       [\<lparr>rroot = 0, rstart = 2, rend = 4\<rparr>, \<lparr>rroot = 0, rstart = 5, rend = 7\<rparr>])
       (Some \<lparr>rroot = 0, rstart = 5, rend = 6, startContainer = TreeNode 0 5 6\<rparr>)
     = (Some \<lparr>rroot = 0, rstart = 5, rend = 7\<rparr>,
        \<lparr>blocks = [\<lparr>rroot = 0, rstart = 2, rend = 4\<rparr>, \<lparr>rroot = 0, rstart = 5, rend = 7\<rparr>],
         index = 1\<rparr>)"
proof -
  have h: "scanByRange (blocks (newParagraphIterator
       [\<lparr>rroot = 0, rstart = 2, rend = 4\<rparr>, \<lparr>rroot = 0, rstart = 5, rend = 7\<rparr>]))
     \<lparr>rroot = 0, rstart = 5, rend = 6, startContainer = TreeNode 0 5 6\<rparr> 0
     = Some (1, \<lparr>rroot = 0, rstart = 5, rend = 7\<rparr>)"
    by (simp add: newParagraphIterator_def position_def)
  from scan_returns_first_overlapping_block [OF h] h show ?thesis
    by (simp add: newParagraphIterator_def)
qed

text \<open>
  C1 as stated fails: the scan compares the end of the block with the start of the
  target and the start of the block with the end of the target, so it returns a block
  that the target only overlaps. In \<open><body><p>ab</p><p>cd</p></body>\<close> the blocks are the
  places \<open>2\<close> to \<open>4\<close> and \<open>5\<close> to \<open>7\<close>; for the target from place \<open>3\<close> (after \<open>ab\<close>) to
  place \<open>6\<close> (after \<open>cd\<close>) the scan returns the first block, which ends before the
  target does.
\<close>

theorem scan_returns_block_not_containing_target:
  "scanByRange [\<lparr>rroot = 0, rstart = 2, rend = 4\<rparr>, \<lparr>rroot = 0, rstart = 5, rend = 7\<rparr>]
     \<lparr>rroot = 0, rstart = 3, rend = 6, startContainer = TreeNode 0 2 3\<rparr> 0
     = Some (0, \<lparr>rroot = 0, rstart = 2, rend = 4\<rparr>)
   \<and> fst (findByRangeAsync (newParagraphIterator
       [\<lparr>rroot = 0, rstart = 2, rend = 4\<rparr>, \<lparr>rroot = 0, rstart = 5, rend = 7\<rparr>])
       (Some \<lparr>rroot = 0, rstart = 3, rend = 6, startContainer = TreeNode 0 2 3\<rparr>))
     = Some \<lparr>rroot = 0, rstart = 2, rend = 4\<rparr>
   \<and> \<not> (rend \<lparr>rroot = 0, rstart = 3, rend = 6, startContainer = TreeNode 0 2 3\<rparr>
          \<le> rend \<lparr>rroot = 0, rstart = 2, rend = 4\<rparr>)"
  by (simp add: findByRangeAsync_def newParagraphIterator_def position_def)

subsection \<open>The blocks of a document\<close>

lemma map_snd_marks: "map snd (marks n) = tokens n"
proof (induction n rule: marks.induct)
  case (1 name children)
  have "map (map snd \<circ> marks) children = map tokens children"
    using 1 by (intro map_cong) auto
  then have "concat (map (map snd \<circ> marks) children) = concat (map tokens children)"
    by (rule arg_cong)
  then show ?case by (simp add: map_concat)
qed simp_all

lemma map_snd_marksOf: "map snd (marksOf ns) = tokensOf ns"
  by (induction ns) (simp_all add: marksOf_def tokensOf_def map_snd_marks)

lemma length_marks: "length (marks n) = length (tokens n)"
  by (metis length_map map_snd_marks)

lemma length_marksOf: "length (marksOf ns) = length (tokensOf ns)"
  by (metis length_map map_snd_marksOf)

lemma marksOf_Cons: "marksOf (n # ns) = marks n @ marksOf ns"
  by (simp add: marksOf_def)

lemma marksOf_append: "marksOf (xs @ ys) = marksOf xs @ marksOf ys"
  by (simp add: marksOf_def)

lemma tokensOf_Cons: "tokensOf (n # ns) = tokens n @ tokensOf ns"
  by (simp add: tokensOf_def)

lemma tokensOf_append: "tokensOf (xs @ ys) = tokensOf xs @ tokensOf ys"
  by (simp add: tokensOf_def)

lemma marks_Element:
  "marks (Element name children)
     = (qualifies (Element name children), Open name) # marksOf children @ [(False, Close name)]"
  by (simp add: marksOf_def)

lemma tokens_Element:
  "tokens (Element name children) = Open name # tokensOf children @ [Close name]"
  by (simp add: tokensOf_def)

lemma scan_full: "MAX_BLOCKS \<le> bCount st \<Longrightarrow> scan doc toks i ms st = st"
  by (induction ms arbitrary: i) auto

lemma scan_append:
  "scan doc toks i (xs @ ys) st = scan doc toks (i + length xs) ys (scan doc toks i xs st)"
  by (induction xs arbitrary: i st) auto

lemma visit_qualifies:
  "visit doc toks st (i, Element name children)
     = (if qualifies (Element name children)
        then closeAndOpen doc toks st i (Suc i) else st)"
  by (auto simp: visit_def qualifies_def)

lemma walkLoop_full: "MAX_BLOCKS \<le> bCount st \<Longrightarrow> walkLoop doc toks es st = st"
  by (cases es) auto

lemma walkLoop_append:
  "walkLoop doc toks (xs @ ys) st = walkLoop doc toks ys (walkLoop doc toks xs st)"
  by (induction xs arbitrary: st) (auto simp: walkLoop_full)

lemma walkLoop_scan:
  "walkLoop doc toks (walk i ns) st = scan doc toks i (marksOf ns) st"
proof (induction i ns arbitrary: st rule: walk.induct)
  case (1 i)
  then show ?case by (simp add: marksOf_def)
next
  case (2 i name children ns)
  let ?e = "Element name children"
  let ?st1 = "if qualifies ?e \<and> bCount st < MAX_BLOCKS
              then closeAndOpen doc toks st i (Suc i) else st"
  have head: "walkLoop doc toks [(i, ?e)] st = ?st1"
    by (simp add: visit_qualifies)
  have "walkLoop doc toks (walk i (?e # ns)) st
      = walkLoop doc toks (walk (i + length (tokens ?e)) ns)
          (walkLoop doc toks (walk (Suc i) children) ?st1)"
    using head by (simp add: walkLoop_append del: walkLoop.simps tokens.simps)
        (metis append_Cons append_Nil walkLoop_append head)
  also have "\<dots> = scan doc toks (i + length (tokens ?e)) (marksOf ns)
          (scan doc toks (Suc i) (marksOf children) ?st1)"
    by (simp only: 2)
  also have "\<dots> = scan doc toks i (marksOf (?e # ns)) st"
    by (simp add: marksOf_Cons marks_Element scan_append length_marksOf tokens_Element
          del: marks.simps tokens.simps)
  finally show ?case .
next
  case (3 i d ns)
  then show ?case by (simp add: marksOf_Cons)
next
  case (4 i d ns)
  then show ?case by (simp add: marksOf_Cons)
qed

subsection \<open>The scan and the segments\<close>

lemma rangeHasContent_slice: "rangeHasContent toks r = segContent (slice toks r)"
  by (simp add: rangeHasContent_def segContent_def rangeToString_def clonedTags_def)

lemma opened_range:
  "setStartAt (createRange doc) (Suc i) = \<lparr>rroot = docId doc, rstart = Suc i, rend = Suc i\<rparr>"
  by (simp add: setStartAt_def createRange_def)

lemma closeAndOpen_None:
  "agrees doc toks i st None \<Longrightarrow>
   closeAndOpen doc toks st i (Suc i)
     = st\<lparr>bLast := Some \<lparr>rroot = docId doc, rstart = Suc i, rend = Suc i\<rparr>\<rparr>"
  by (simp add: agrees_def closeAndOpen_def opened_range)

lemma closeAndOpen_Some:
  "agrees doc toks i st (Some (s, pend)) \<Longrightarrow>
   closeAndOpen doc toks st i (Suc i)
     = (if segContent pend
        then st\<lparr>bBlocks := bBlocks st @ [\<lparr>rroot = docId doc, rstart = s, rend = i\<rparr>],
                bCount := bCount st + 1,
                bLast := Some \<lparr>rroot = docId doc, rstart = Suc i, rend = Suc i\<rparr>\<rparr>
        else st\<lparr>bLast := Some \<lparr>rroot = docId doc, rstart = Suc i, rend = Suc i\<rparr>\<rparr>)"
  by (simp add: agrees_def closeAndOpen_def opened_range setEndAt_def rangeHasContent_slice
        slice_def Let_def)

lemma agrees_extend:
  assumes "agrees doc toks i st cur" "i < length toks" "toks ! i = t"
  shows "agrees doc toks (Suc i) st (extendOpen cur [t])"
proof (cases cur)
  case None
  with assms show ?thesis by (simp add: agrees_def)
next
  case (Some a)
  obtain s pend where a: "a = (s, pend)" by (cases a)
  from assms Some a have s: "s \<le> i" and p: "pend = take (i - s) (drop s toks)"
    and l: "bLast st = Some \<lparr>rroot = docId doc, rstart = s, rend = s\<rparr>"
    by (simp_all add: agrees_def)
  have "Suc i - s = Suc (i - s)" using s by arith
  moreover have "i - s < length (drop s toks)" using s assms(2) by simp
  moreover have "drop s toks ! (i - s) = t" using s assms(2,3) by simp
  ultimately have "take (Suc i - s) (drop s toks) = pend @ [t]"
    using p by (simp add: take_Suc_conv_app_nth)
  with Some a s l show ?thesis by (simp add: agrees_def)
qed

lemma scan_cut:
  assumes "toks = pre @ map snd ms @ post" "length pre = i"
    and "bCount st = length (bBlocks st)"
    and "agrees doc toks i st cur"
    and "cut (docId doc) cur i ms = (cs, fin)"
  shows "bBlocks (scan doc toks i ms st)
           = bBlocks st @ map fst (take (MAX_BLOCKS - length (bBlocks st))
                                    (filter (\<lambda>c. segContent (snd c)) cs))
         \<and> bCount (scan doc toks i ms st) = length (bBlocks (scan doc toks i ms st))
         \<and> (length (bBlocks st) + length (filter (\<lambda>c. segContent (snd c)) cs) < MAX_BLOCKS
              \<longrightarrow> agrees doc toks (i + length ms) (scan doc toks i ms st) fin)"
  using assms
proof (induction ms arbitrary: pre i st cur cs fin)
  case Nil
  then show ?case by simp
next
  case (Cons a ms)
  obtain m t where a: "a = (m, t)" by (cases a)
  have toks: "toks = (pre @ [t]) @ map snd ms @ post" "length (pre @ [t]) = Suc i"
    using Cons.prems(1,2) a by simp_all
  have it: "i < length toks" "toks ! i = t"
    using Cons.prems(1,2) a by (simp_all add: nth_append)
  show ?case
  proof (cases m)
    case False
    with Cons.prems(5) a have c: "cut (docId doc) (extendOpen cur [t]) (Suc i) ms = (cs, fin)"
      by simp
    have ag: "agrees doc toks (Suc i) st (extendOpen cur [t])"
      using agrees_extend [OF Cons.prems(4) it] .
    from Cons.IH [OF toks Cons.prems(3) ag c] False a show ?thesis by simp
  next
    case True
    obtain cs' fin' where c': "cut (docId doc) (Some (Suc i, [])) (Suc i) ms = (cs', fin')"
      by (cases "cut (docId doc) (Some (Suc i, [])) (Suc i) ms")
    with Cons.prems(5) a True have cs: "cs = closing (docId doc) cur i @ cs'" and fin: "fin = fin'"
      by simp_all
    show ?thesis
    proof (cases "bCount st < MAX_BLOCKS")
      case full: False
      then have "scan doc toks i (a # ms) st = st"
        using a True by (simp add: scan_full)
      with full Cons.prems(3) show ?thesis by simp
    next
      case room: True
      let ?st1 = "closeAndOpen doc toks st i (Suc i)"
      have sc: "scan doc toks i (a # ms) st = scan doc toks (Suc i) ms ?st1"
        using a True room by simp
      show ?thesis
      proof (cases cur)
        case None
        have st1: "?st1 = st\<lparr>bLast := Some \<lparr>rroot = docId doc, rstart = Suc i, rend = Suc i\<rparr>\<rparr>"
          using closeAndOpen_None Cons.prems(4) None by simp
        have ag: "agrees doc toks (Suc i) ?st1 (Some (Suc i, []))"
          by (simp add: st1 agrees_def)
        have cnt: "bCount ?st1 = length (bBlocks ?st1)"
          using Cons.prems(3) by (simp add: st1)
        from Cons.IH [OF toks cnt ag c'] show ?thesis
          by (simp add: sc cs fin None st1)
      next
        case (Some b)
        obtain s pend where b: "b = (s, pend)" by (cases b)
        have ag0: "agrees doc toks i st (Some (s, pend))"
          using Cons.prems(4) Some b by simp
        have st1: "?st1 = (if segContent pend
            then st\<lparr>bBlocks := bBlocks st @ [\<lparr>rroot = docId doc, rstart = s, rend = i\<rparr>],
                    bCount := bCount st + 1,
                    bLast := Some \<lparr>rroot = docId doc, rstart = Suc i, rend = Suc i\<rparr>\<rparr>
            else st\<lparr>bLast := Some \<lparr>rroot = docId doc, rstart = Suc i, rend = Suc i\<rparr>\<rparr>)"
          using closeAndOpen_Some [OF ag0] .
        have ag: "agrees doc toks (Suc i) ?st1 (Some (Suc i, []))"
          by (simp add: st1 agrees_def)
        have cnt: "bCount ?st1 = length (bBlocks ?st1)"
          using Cons.prems(3) by (simp add: st1)
        have n: "length (bBlocks st) < MAX_BLOCKS"
          using room Cons.prems(3) by simp
        show ?thesis
        proof (cases "segContent pend")
          case True
          have d: "MAX_BLOCKS - length (bBlocks st) = Suc (MAX_BLOCKS - Suc (length (bBlocks st)))"
            using n by arith
          from Cons.IH [OF toks cnt ag c'] True show ?thesis
            by (simp add: sc cs fin Some b st1 d)
        next
          case False
          from Cons.IH [OF toks cnt ag c'] False show ?thesis
            by (simp add: sc cs fin Some b st1)
        qed
      qed
    qed
  qed
qed

lemma startPlace_le_endPlace: "startPlace kids \<le> endPlace kids"
proof (cases kids)
  case Nil
  then show ?thesis by (simp add: startPlace_def endPlace_def bodyTokens_def tokensOf_def)
next
  case (Cons n ns)
  then show ?thesis
    by (cases n) (simp_all add: startPlace_def endPlace_def tokensOf_def)
qed

lemma cut_None_fin: "cut root cur i ms = (cs, None) \<Longrightarrow> cur = None \<and> cs = []"
proof (induction ms arbitrary: cur i cs)
  case Nil
  then show ?case by simp
next
  case (Cons a ms)
  obtain m t where a: "a = (m, t)" by (cases a)
  show ?case
  proof (cases m)
    case True
    with Cons.prems a obtain cs' where "cut root (Some (Suc i, [])) (Suc i) ms = (cs', None)"
      by (auto split: prod.splits)
    from Cons.IH [OF this] show ?thesis by simp
  next
    case False
    with Cons.prems a have "cut root (extendOpen cur [t]) (Suc i) ms = (cs, None)" by simp
    from Cons.IH [OF this] show ?thesis by (cases cur) auto
  qed
qed

lemma bodyTokens_marks:
  "bodyTokens kids = [Open ''body''] @ map snd (marksOf kids) @ [Close ''body'']"
  by (simp add: bodyTokens_def map_snd_marksOf)

text \<open>
  What \<open>createAsync\<close> returns, by the ranges that \<open>cut\<close> lists for the marked
  serialisation of \<open>body\<close>.
\<close>

lemma createAsync_blocks:
  assumes b: "body doc = Some kids"
    and c: "cut (docId doc) None 1 (marksOf kids) = (cs, fin)"
  shows "index (createAsync doc) = - 1"
    and "MAX_BLOCKS \<le> length (filter (\<lambda>c. segContent (snd c)) cs) \<Longrightarrow>
           blocks (createAsync doc) = map fst (take MAX_BLOCKS (filter (\<lambda>c. segContent (snd c)) cs))"
    and "length (filter (\<lambda>c. segContent (snd c)) cs) < MAX_BLOCKS \<Longrightarrow> fin \<noteq> None \<Longrightarrow>
           blocks (createAsync doc)
             = map fst (filter (\<lambda>c. segContent (snd c)) (cs @ closing (docId doc) fin (endPlace kids)))"
    and "fin = None \<Longrightarrow>
           blocks (createAsync doc)
             = (if rangeHasContent (bodyTokens kids)
                     \<lparr>rroot = docId doc, rstart = startPlace kids, rend = endPlace kids\<rparr>
                then [\<lparr>rroot = docId doc, rstart = startPlace kids, rend = endPlace kids\<rparr>]
                else [])"
proof -
  let ?toks = "bodyTokens kids"
  let ?init = "\<lparr>bBlocks = [], bLast = None, bCount = 0\<rparr>"
  let ?st = "walkLoop doc ?toks (walk 1 kids) ?init"
  let ?kept = "filter (\<lambda>c. segContent (snd c)) cs"
  have sc: "?st = scan doc ?toks 1 (marksOf kids) ?init"
    by (rule walkLoop_scan)
  have ag0: "agrees doc ?toks 1 ?init None" by (simp add: agrees_def)
  have one: "length [Open ''body''] = 1" by simp
  have cnt0: "bCount ?init = length (bBlocks ?init)" by simp
  from scan_cut [OF bodyTokens_marks one cnt0 ag0 c]
  have main: "bBlocks ?st = map fst (take MAX_BLOCKS ?kept)
      \<and> bCount ?st = length (bBlocks ?st)
      \<and> (length ?kept < MAX_BLOCKS \<longrightarrow> agrees doc ?toks (1 + length (marksOf kids)) ?st fin)"
    unfolding sc by simp
  from main have blocks: "bBlocks ?st = map fst (take MAX_BLOCKS ?kept)"
    and count: "bCount ?st = length (bBlocks ?st)"
    and ag: "length ?kept < MAX_BLOCKS \<Longrightarrow> agrees doc ?toks (1 + length (marksOf kids)) ?st fin"
    by blast+
  show "index (createAsync doc) = - 1"
    using b by (simp add: createAsync_def newParagraphIterator_def Let_def)
  show "blocks (createAsync doc) = map fst (take MAX_BLOCKS ?kept)"
    if "MAX_BLOCKS \<le> length ?kept"
  proof -
    from that count blocks have "bCount ?st = MAX_BLOCKS" by simp
    then show ?thesis
      using b blocks by (simp add: createAsync_def newParagraphIterator_def Let_def)
  qed
  have few: "bCount ?st < MAX_BLOCKS" "bBlocks ?st = map fst ?kept"
    if "length ?kept < MAX_BLOCKS"
    using that count blocks by simp_all
  show "blocks (createAsync doc)
          = map fst (filter (\<lambda>c. segContent (snd c)) (cs @ closing (docId doc) fin (endPlace kids)))"
    if lt: "length ?kept < MAX_BLOCKS" and fin: "fin \<noteq> None"
  proof -
    from fin obtain s pend where f: "fin = Some (s, pend)" by (cases fin) auto
    from ag [OF lt] f have l: "bLast ?st = Some \<lparr>rroot = docId doc, rstart = s, rend = s\<rparr>"
      and s: "s \<le> 1 + length (marksOf kids)"
      and p: "pend = take (1 + length (marksOf kids) - s) (drop s ?toks)"
      by (simp_all add: agrees_def)
    have "kids \<noteq> []"
    proof
      assume "kids = []"
      with c f show False by (simp add: marksOf_def)
    qed
    then have e: "endPlace kids = 1 + length (marksOf kids)"
      by (cases kids) (simp_all add: endPlace_def length_marksOf)
    have closed: "setEndAt \<lparr>rroot = docId doc, rstart = s, rend = s\<rparr> (endPlace kids)
        = \<lparr>rroot = docId doc, rstart = s, rend = endPlace kids\<rparr>"
      using s e by (simp add: setEndAt_def)
    have content: "rangeHasContent ?toks \<lparr>rroot = docId doc, rstart = s, rend = endPlace kids\<rparr>
        = segContent pend"
      using p e by (simp add: rangeHasContent_slice slice_def)
    show ?thesis
      using b few [OF lt] l closed content f
      by (simp add: createAsync_def newParagraphIterator_def Let_def del: bodyTokens_marks)
  qed
  show "blocks (createAsync doc)
          = (if rangeHasContent ?toks \<lparr>rroot = docId doc, rstart = startPlace kids, rend = endPlace kids\<rparr>
             then [\<lparr>rroot = docId doc, rstart = startPlace kids, rend = endPlace kids\<rparr>]
             else [])"
    if fin: "fin = None"
  proof -
    from c fin have cs: "cs = []" using cut_None_fin by blast
    then have lt: "length ?kept < MAX_BLOCKS" by (simp add: MAX_BLOCKS_def)
    from ag [OF lt] fin have l: "bLast ?st = None" by (simp add: agrees_def)
    have "0 < insideAt 1 n" for n by (cases n) simp_all
    then have "0 < startPlace kids"
      by (cases kids) (simp_all add: startPlace_def)
    then have opened: "setStartAt (createRange doc) (startPlace kids)
        = \<lparr>rroot = docId doc, rstart = startPlace kids, rend = startPlace kids\<rparr>"
      by (simp add: setStartAt_def createRange_def)
    have closed: "setEndAt \<lparr>rroot = docId doc, rstart = startPlace kids, rend = startPlace kids\<rparr>
          (endPlace kids)
        = \<lparr>rroot = docId doc, rstart = startPlace kids, rend = endPlace kids\<rparr>"
      using startPlace_le_endPlace [of kids] by (simp add: setEndAt_def)
    show ?thesis
      using b few [OF lt] l cs opened closed
      by (simp add: createAsync_def newParagraphIterator_def Let_def)
  qed
qed

subsection \<open>Cutting an appended serialisation\<close>

lemma extendOpen_Nil: "extendOpen cur [] = cur"
  by (cases cur) auto

lemma extendOpen_append: "extendOpen (extendOpen cur xs) ys = extendOpen cur (xs @ ys)"
  by (cases cur) auto

lemma cut_append:
  "cut root cur i (xs @ ys)
     = (case cut root cur i xs of
          (cs1, cur1) \<Rightarrow>
            (case cut root cur1 (i + length xs) ys of (cs2, fin) \<Rightarrow> (cs1 @ cs2, fin)))"
proof (induction xs arbitrary: cur i)
  case Nil
  then show ?case by simp
next
  case (Cons a xs)
  obtain m t where a: "a = (m, t)" by (cases a)
  show ?case
    using Cons.IH [of "Some (Suc i, [])" "Suc i"] Cons.IH [of "extendOpen cur [t]" "Suc i"]
    by (simp add: a split: prod.splits)
qed

lemma cut_unmarked:
  "\<forall>x\<in>set xs. \<not> fst x \<Longrightarrow> cut root cur i xs = ([], extendOpen cur (map snd xs))"
proof (induction xs arbitrary: cur i)
  case Nil
  then show ?case by (simp add: extendOpen_Nil)
next
  case (Cons a xs)
  obtain m t where a: "a = (m, t)" by (cases a)
  with Cons show ?case by (simp add: extendOpen_append)
qed

lemma noBlocks_not_qualifies: "noBlocks n \<Longrightarrow> \<not> qualifies n"
  by (cases n) (simp_all add: qualifies_def)

lemma noBlocks_unmarked: "noBlocks n \<Longrightarrow> \<forall>x\<in>set (marks n). \<not> fst x"
proof (induction n rule: marks.induct)
  case (1 name children)
  then have "\<forall>c\<in>set children. \<forall>x\<in>set (marks c). \<not> fst x"
    by (auto simp: list_all_iff)
  with 1 show ?case
    using noBlocks_not_qualifies [of "Element name children"] by auto
qed simp_all

lemma noBlocks_unmarked_list:
  "list_all noBlocks ns \<Longrightarrow> \<forall>x\<in>set (marksOf ns). \<not> fst x"
  using noBlocks_unmarked by (auto simp: marksOf_def list_all_iff)

lemma leafBlock_qualifies: "leafBlock n \<Longrightarrow> qualifies n"
proof (cases n)
  case (Element name children)
  assume "leafBlock n"
  with Element have b: "name \<in> set blockTags" and c: "list_all noBlocks children" by simp_all
  have "\<not> isBlockElement x" if "x \<in> set children" for x
    using c that by (cases x) (auto simp: list_all_iff)
  then have "\<not> hasBlockChild n"
    using Element by (auto simp: hasBlockChild_def list_ex_iff)
  with b Element show ?thesis by (simp add: qualifies_def)
qed simp_all

lemma cut_leafBlock:
  assumes "leafBlock n"
  shows "cut root cur i (marks n)
           = (closing root cur i, Some (Suc i, tl (tokens n)))"
proof (cases n)
  case (Element name children)
  with assms have c: "list_all noBlocks children" by simp
  have q: "qualifies (Element name children)"
    using leafBlock_qualifies assms Element by simp
  have u: "\<forall>x\<in>set (marksOf children @ [(False, Close name)]). \<not> fst x"
    using noBlocks_unmarked_list [OF c] by auto
  have "cut root cur i (marks n)
      = (case cut root (Some (Suc i, [])) (Suc i) (marksOf children @ [(False, Close name)]) of
           (cs, fin) \<Rightarrow> (closing root cur i @ cs, fin))"
    using q Element by (simp add: marksOf_def)
  also have "\<dots> = (closing root cur i, Some (Suc i, tokensOf children @ [Close name]))"
    by (simp add: cut_unmarked [OF u] map_snd_marksOf)
  finally show ?thesis using Element by (simp add: tokensOf_def)
next
  case (Text d)
  with assms show ?thesis by simp
next
  case (Comment d)
  with assms show ?thesis by simp
qed

text \<open>All ranges of a serialisation, the last one running to its end.\<close>

lemma cut_flat:
  assumes "list_all leafBlock ns"
    and "cut root cur i (marksOf ns) = (cs, fin)"
  shows "cs @ closing root fin (i + length (marksOf ns))
           = closing root cur i @ flatCands root i ns"
  using assms
proof (induction ns arbitrary: cur i cs fin)
  case Nil
  then show ?case by (simp add: marksOf_def)
next
  case (Cons n ns)
  from Cons.prems(1) have n: "leafBlock n" and ns: "list_all leafBlock ns" by simp_all
  obtain cs2 fin2 where c2:
    "cut root (Some (Suc i, tl (tokens n))) (i + length (marks n)) (marksOf ns) = (cs2, fin2)"
    by (cases "cut root (Some (Suc i, tl (tokens n))) (i + length (marks n)) (marksOf ns)")
  from Cons.prems(2) have cs: "cs = closing root cur i @ cs2" and fin: "fin = fin2"
    by (simp_all add: marksOf_Cons cut_append cut_leafBlock [OF n] c2)
  from Cons.IH [OF ns c2]
  have "cs2 @ closing root fin2 (i + length (marks n) + length (marksOf ns))
      = (\<lparr>rroot = root, rstart = Suc i, rend = i + length (marks n)\<rparr>, tl (tokens n))
        # flatCands root (i + length (marks n)) ns"
    by simp
  then show ?case
    by (simp add: cs fin marksOf_Cons length_marks add.assoc)
qed

lemma flatCands_append:
  "flatCands root i (xs @ ys) = flatCands root i xs @ flatCands root (i + length (tokensOf xs)) ys"
  by (induction xs arbitrary: i) (simp_all add: tokensOf_Cons tokensOf_def add.assoc)

subsection \<open>Content of segments\<close>

lemma charsOf_append: "charsOf (xs @ ys) = charsOf xs @ charsOf ys"
  by (induction xs rule: charsOf.induct) simp_all

lemma hasMeaningfulText_append:
  "hasMeaningfulText (a @ b) \<longleftrightarrow> hasMeaningfulText a \<or> hasMeaningfulText b"
  by (auto simp: hasMeaningfulText_def)

lemma segContent_append: "segContent (xs @ ys) \<longleftrightarrow> segContent xs \<or> segContent ys"
  by (auto simp: segContent_def charsOf_append hasMeaningfulText_append List.map_filter_def
        list_ex_iff)

lemma segContent_Nil: "\<not> segContent []"
  by (simp add: segContent_def hasMeaningfulText_def List.map_filter_simps)

lemma segContent_Cons: "segContent (t # ts) \<longleftrightarrow> segContent [t] \<or> segContent ts"
  using segContent_append [of "[t]" ts] by simp

lemma segContent_single:
  "segContent [Open name] \<longleftrightarrow> name \<in> set MEDIA_SELECTOR"
  "segContent [Close name] \<longleftrightarrow> name \<in> set MEDIA_SELECTOR"
  "segContent [Chars d] \<longleftrightarrow> hasMeaningfulText d"
  "\<not> segContent [Note]"
  by (simp_all add: segContent_def List.map_filter_simps hasMeaningfulText_def)

lemma segContent_concat:
  "segContent (concat xss) \<longleftrightarrow> (\<exists>xs\<in>set xss. segContent xs)"
  by (induction xss) (simp_all add: segContent_Nil segContent_append)

lemma segContent_tokens_Element:
  "segContent (tokens (Element name children))
     \<longleftrightarrow> name \<in> set MEDIA_SELECTOR \<or> (\<exists>c\<in>set children. segContent (tokens c))"
  by (auto simp: segContent_Cons [of "Open name"] segContent_append segContent_single
        segContent_concat)

lemma segContent_tl_tokens_Element:
  "segContent (tl (tokens (Element name children)))
     \<longleftrightarrow> name \<in> set MEDIA_SELECTOR \<or> (\<exists>c\<in>set children. segContent (tokens c))"
  by (auto simp: segContent_append segContent_single segContent_concat)

lemma blank_no_content: "blank n \<Longrightarrow> \<not> segContent (tokens n)"
proof (induction n rule: tokens.induct)
  case (1 name children)
  then have "\<forall>c\<in>set children. \<not> segContent (tokens c)"
    by (auto simp: list_all_iff)
  with 1 show ?case by (simp add: segContent_tokens_Element del: tokens.simps)
qed (simp_all add: segContent_single)

lemma blank_noBlocks: "blank n \<Longrightarrow> noBlocks n"
  by (induction n rule: blank.induct) (auto simp: list_all_iff)

lemma blankParagraph_leafBlock: "blankParagraph n \<Longrightarrow> leafBlock n"
  using blank_noBlocks by (cases n) (auto simp: list_all_iff blockTags_def)

lemma blankParagraph_no_content: "blankParagraph n \<Longrightarrow> \<not> segContent (tl (tokens n))"
proof (cases n)
  case (Element name children)
  assume "blankParagraph n"
  with Element have "name = ''p''" "\<forall>c\<in>set children. \<not> segContent (tokens c)"
    using blank_no_content by (auto simp: list_all_iff)
  with Element show ?thesis
    by (simp add: segContent_tl_tokens_Element MEDIA_SELECTOR_def del: tokens.simps)
qed simp_all

lemma flatCands_blank:
  "list_all blankParagraph ns \<Longrightarrow> filter (\<lambda>c. segContent (snd c)) (flatCands root i ns) = []"
  by (induction ns arbitrary: i) (simp_all add: blankParagraph_no_content del: tokens.simps)

lemma textParagraph_leafBlock: "leafBlock (textParagraph d)"
  by (simp add: textParagraph_def blockTags_def)

lemma flatCands_textParagraph:
  "flatCands root i (textParagraph d # ns)
     = (\<lparr>rroot = root, rstart = Suc i, rend = i + 3\<rparr>, [Chars d, Close ''p''])
       # flatCands root (i + 3) ns"
  by (simp add: textParagraph_def numeral_3_eq_3)

lemma segContent_textParagraph: "segContent [Chars d, Close ''p''] \<longleftrightarrow> hasMeaningfulText d"
  by (simp add: segContent_Cons [of "Chars d"] segContent_single MEDIA_SELECTOR_def)

lemma hasMeaningfulText_First: "hasMeaningfulText (utf16 ''First'')"
  by (simp add: hasMeaningfulText_def utf16_def invisible_def jsWhiteSpace_def)

lemma hasMeaningfulText_Second: "hasMeaningfulText (utf16 ''Second'')"
  by (simp add: hasMeaningfulText_def utf16_def invisible_def jsWhiteSpace_def)

text \<open>The blocks of a body that is a list of leaf blocks, when the cap is not reached.\<close>

lemma createAsync_flat:
  assumes b: "body doc = Some kids" and k: "kids \<noteq> []" and l: "list_all leafBlock kids"
    and few: "length (filter (\<lambda>c. segContent (snd c)) (flatCands (docId doc) 1 kids)) < MAX_BLOCKS"
  shows "blocks (createAsync doc)
           = map fst (filter (\<lambda>c. segContent (snd c)) (flatCands (docId doc) 1 kids))"
proof -
  obtain cs fin where c: "cut (docId doc) None 1 (marksOf kids) = (cs, fin)"
    by (cases "cut (docId doc) None 1 (marksOf kids)")
  from cut_flat [OF l c]
  have all: "cs @ closing (docId doc) fin (1 + length (marksOf kids)) = flatCands (docId doc) 1 kids"
    by simp
  have e: "endPlace kids = 1 + length (marksOf kids)"
    using k by (cases kids) (simp_all add: endPlace_def length_marksOf)
  have fin: "fin \<noteq> None"
  proof
    assume "fin = None"
    with c have "cs = []" using cut_None_fin by blast
    with all \<open>fin = None\<close> have "flatCands (docId doc) 1 kids = []" by simp
    with k show False by (cases kids) simp_all
  qed
  have "length (filter (\<lambda>c. segContent (snd c)) cs)
      \<le> length (filter (\<lambda>c. segContent (snd c)) (flatCands (docId doc) 1 kids))"
    by (subst all [symmetric]) simp
  with few have lt: "length (filter (\<lambda>c. segContent (snd c)) cs) < MAX_BLOCKS" by simp
  from createAsync_blocks(3) [OF b c lt fin] show ?thesis
    by (simp only: e all)
qed

subsection \<open>Paragraphs without content\<close>

lemma slice_middle:
  "rstart r = length xs \<Longrightarrow> rend r = length xs + length ys \<Longrightarrow> slice (xs @ ys @ zs) r = ys"
  by (simp add: slice_def)

text \<open>
  C5. The body is a list of paragraphs: paragraphs without meaningful text, media or
  block-tag elements (white space, non-breaking space, zero-width space, a line break)
  and, among them, the two text paragraphs \<open>First\<close> and \<open>Second\<close> in this order. Then
  \<open>createAsync\<close> yields exactly two blocks: the range inside the first text paragraph and
  the range inside the second, in document order, with the texts \<open>First\<close> and \<open>Second\<close>.
\<close>

theorem blank_paragraphs_skipped:
  assumes pre: "list_all blankParagraph pre" and mid: "list_all blankParagraph mid"
    and post: "list_all blankParagraph post"
    and b: "body doc = Some (pre @ [textParagraph (utf16 ''First'')] @ mid
                              @ [textParagraph (utf16 ''Second'')] @ post)"
  shows "blocks (createAsync doc)
           = [\<lparr>rroot = docId doc, rstart = 2 + length (tokensOf pre),
                rend = 4 + length (tokensOf pre)\<rparr>,
              \<lparr>rroot = docId doc, rstart = 5 + length (tokensOf pre) + length (tokensOf mid),
                rend = 7 + length (tokensOf pre) + length (tokensOf mid)\<rparr>]
         \<and> map (rangeToString (bodyTokens (pre @ [textParagraph (utf16 ''First'')] @ mid
                   @ [textParagraph (utf16 ''Second'')] @ post)))
             (blocks (createAsync doc))
           = [utf16 ''First'', utf16 ''Second'']"
proof -
  let ?F = "textParagraph (utf16 ''First'')" and ?S = "textParagraph (utf16 ''Second'')"
  let ?kids = "pre @ [?F] @ mid @ [?S] @ post"
  let ?a = "length (tokensOf pre)" and ?m = "length (tokensOf mid)"
  have leaf: "list_all leafBlock ?kids"
    using pre mid post blankParagraph_leafBlock textParagraph_leafBlock
    by (auto simp: list_all_iff)
  have ne: "?kids \<noteq> []" by simp
  have tP: "tokens (textParagraph d) = [Open ''p'', Chars d, Close ''p'']" for d
    by (simp add: textParagraph_def)
  have cands: "filter (\<lambda>c. segContent (snd c)) (flatCands (docId doc) 1 ?kids)
      = [(\<lparr>rroot = docId doc, rstart = 2 + ?a, rend = 4 + ?a\<rparr>, [Chars (utf16 ''First''), Close ''p'']),
         (\<lparr>rroot = docId doc, rstart = 5 + ?a + ?m, rend = 7 + ?a + ?m\<rparr>,
            [Chars (utf16 ''Second''), Close ''p''])]"
    by (simp add: flatCands_append flatCands_blank [OF pre] flatCands_blank [OF mid]
          flatCands_blank [OF post] tP segContent_textParagraph tokensOf_def
          hasMeaningfulText_First hasMeaningfulText_Second)
  have few: "length (filter (\<lambda>c. segContent (snd c)) (flatCands (docId doc) 1 ?kids)) < MAX_BLOCKS"
    by (simp only: cands) (simp add: MAX_BLOCKS_def)
  have blocks: "blocks (createAsync doc)
      = [\<lparr>rroot = docId doc, rstart = 2 + ?a, rend = 4 + ?a\<rparr>,
         \<lparr>rroot = docId doc, rstart = 5 + ?a + ?m, rend = 7 + ?a + ?m\<rparr>]"
    by (simp only: createAsync_flat [OF b ne leaf few] cands) simp
  have toks: "bodyTokens ?kids
      = (Open ''body'' # tokensOf pre) @ [Open ''p'', Chars (utf16 ''First''), Close ''p'']
        @ tokensOf mid @ [Open ''p'', Chars (utf16 ''Second''), Close ''p'']
        @ tokensOf post @ [Close ''body'']"
    by (simp add: bodyTokens_def tokensOf_append tokensOf_def textParagraph_def)
  have s1: "rangeToString (bodyTokens ?kids)
        \<lparr>rroot = docId doc, rstart = 2 + ?a, rend = 4 + ?a\<rparr> = utf16 ''First''"
    by (simp only: toks) (simp add: rangeToString_def slice_def)
  have toks2: "bodyTokens ?kids
      = (Open ''body'' # tokensOf pre @ [Open ''p'', Chars (utf16 ''First''), Close ''p'']
          @ tokensOf mid @ [Open ''p''])
        @ [Chars (utf16 ''Second''), Close ''p''] @ (tokensOf post @ [Close ''body''])"
    by (subst toks) simp
  have s2: "rangeToString (bodyTokens ?kids)
        \<lparr>rroot = docId doc, rstart = 5 + ?a + ?m, rend = 7 + ?a + ?m\<rparr> = utf16 ''Second''"
  proof -
    have "slice (bodyTokens ?kids) \<lparr>rroot = docId doc, rstart = 5 + ?a + ?m, rend = 7 + ?a + ?m\<rparr>
        = [Chars (utf16 ''Second''), Close ''p'']"
      by (subst toks2, rule slice_middle) simp_all
    then show ?thesis by (simp add: rangeToString_def)
  qed
  show ?thesis
    by (simp only: blocks s1 s2 list.map)
qed

theorem blank_paragraphs_skipped_witness:
  "blocks (createAsync \<lparr>docId = 0, body = Some
      [textParagraph (utf16 ''First''),
       Element ''p'' [Text [0x20]],
       Element ''p'' [Text [0xA0]],
       Element ''p'' [Text [0x200B]],
       Element ''p'' [Element ''span'' [Text [0xA0]]],
       Element ''p'' [Element ''br'' []],
       textParagraph (utf16 ''Second'')]\<rparr>)
   = [\<lparr>rroot = 0, rstart = 2, rend = 4\<rparr>, \<lparr>rroot = 0, rstart = 23, rend = 25\<rparr>]"
proof -
  let ?mid = "[Element ''p'' [Text [0x20]], Element ''p'' [Text [0xA0]],
       Element ''p'' [Text [0x200B]], Element ''p'' [Element ''span'' [Text [0xA0]]],
       Element ''p'' [Element ''br'' []]]"
  let ?doc = "\<lparr>docId = 0, body = Some ([] @ [textParagraph (utf16 ''First'')] @ ?mid
                 @ [textParagraph (utf16 ''Second'')] @ [])\<rparr>"
  have pre: "list_all blankParagraph []" by simp
  have mid: "list_all blankParagraph ?mid"
    by (simp add: hasMeaningfulText_def invisible_def jsWhiteSpace_def blockTags_def
          MEDIA_SELECTOR_def)
  have b: "body ?doc = Some ([] @ [textParagraph (utf16 ''First'')] @ ?mid
                 @ [textParagraph (utf16 ''Second'')] @ [])" by simp
  from blank_paragraphs_skipped [OF pre mid pre b] show ?thesis
    by (simp add: tokensOf_def)
qed

subsection \<open>A body without block-tag elements\<close>

lemma whole_slice:
  "slice (bodyTokens kids) \<lparr>rroot = root, rstart = startPlace kids, rend = endPlace kids\<rparr>
     = (case kids of
          [] \<Rightarrow> [Close ''body'']
        | Element name children # ns \<Rightarrow> tl (tokensOf kids)
        | _ \<Rightarrow> tokensOf kids)"
proof (cases kids)
  case Nil
  then show ?thesis
    by (simp add: slice_def bodyTokens_def startPlace_def endPlace_def tokensOf_def)
next
  case (Cons n ns)
  show ?thesis
  proof (cases n)
    case (Element name children)
    obtain T where T: "tokensOf kids = Open name # T"
      using Cons Element by (simp add: tokensOf_def)
    show ?thesis
      using Cons Element T
      by (simp add: slice_def bodyTokens_def startPlace_def endPlace_def)
  next
    case (Text d)
    then show ?thesis
      using Cons by (simp add: slice_def bodyTokens_def startPlace_def endPlace_def)
  next
    case (Comment d)
    then show ?thesis
      using Cons by (simp add: slice_def bodyTokens_def startPlace_def endPlace_def)
  qed
qed

lemma whole_content:
  "segContent (slice (bodyTokens kids)
       \<lparr>rroot = root, rstart = startPlace kids, rend = endPlace kids\<rparr>)
     = segContent (tokensOf kids)"
proof (cases kids)
  case Nil
  then show ?thesis
    by (simp add: whole_slice segContent_single MEDIA_SELECTOR_def tokensOf_def segContent_Nil)
next
  case (Cons n ns)
  show ?thesis
  proof (cases n)
    case (Element name children)
    have T: "tokensOf kids = [Open name] @ (tokensOf children @ [Close name] @ tokensOf ns)"
      using Cons Element by (simp add: tokensOf_def)
    have "segContent (tl (tokensOf kids)) = segContent (tokensOf kids)"
      by (subst (1 2) T) (auto simp: segContent_append segContent_single segContent_Nil
          simp del: append.simps)
    then show ?thesis using Cons Element by (simp add: whole_slice)
  next
    case (Text d)
    then show ?thesis using Cons by (simp add: whole_slice)
  next
    case (Comment d)
    then show ?thesis using Cons by (simp add: whole_slice)
  qed
qed

lemma whole_text:
  "charsOf (slice (bodyTokens kids)
       \<lparr>rroot = root, rstart = startPlace kids, rend = endPlace kids\<rparr>)
     = charsOf (tokensOf kids)"
proof (cases kids)
  case Nil
  then show ?thesis by (simp add: whole_slice tokensOf_def)
next
  case (Cons n ns)
  then show ?thesis
    by (cases n) (simp_all add: whole_slice tokensOf_def)
qed

text \<open>The code's pattern and selector against the words of the specification.\<close>

lemma invisible_stripped: "invisible c \<longleftrightarrow> stripped c"
  unfolding invisible_def jsWhiteSpace_def stripped_def regularSpaces_def
    spaceSeparators_def zeroWidthCharacters_def byteOrderMark_def set_append set_upt
  by (simp del: upt_rec_numeral) arith

lemma hasMeaningfulText_stripped:
  "hasMeaningfulText text \<longleftrightarrow> length (filter (\<lambda>c. \<not> stripped c) text) > 0"
  by (simp add: hasMeaningfulText_def invisible_stripped)

lemma MEDIA_SELECTOR_mediaElements: "set MEDIA_SELECTOR = set mediaElements"
  by (simp add: MEDIA_SELECTOR_def mediaElements_def)

lemma hasMeaningfulText_concat:
  "hasMeaningfulText (concat xss) \<longleftrightarrow> (\<exists>xs\<in>set xss. hasMeaningfulText xs)"
  by (induction xss) (simp_all add: hasMeaningfulText_append, simp add: hasMeaningfulText_def)

lemma charsOf_concat: "charsOf (concat xss) = concat (map charsOf xss)"
  by (induction xss) (simp_all add: charsOf_append)

lemma charsOf_tokens: "charsOf (tokens n) = plainText n"
proof (induction n rule: tokens.induct)
  case (1 name children)
  then have "map (\<lambda>c. charsOf (tokens c)) children = map plainText children"
    by (simp cong: map_cong)
  then show ?case by (simp add: charsOf_append charsOf_concat comp_def del: map_eq_conv)
qed simp_all

lemma charsOf_tokensOf: "charsOf (tokensOf ns) = concat (map plainText ns)"
  by (simp add: tokensOf_def charsOf_concat comp_def charsOf_tokens)

lemma segContent_tokens: "segContent (tokens n) \<longleftrightarrow> hasMeaningfulText (plainText n) \<or> hasMedia n"
proof (induction n rule: tokens.induct)
  case (1 name children)
  then have "(\<exists>c\<in>set children. segContent (tokens c))
      \<longleftrightarrow> (\<exists>c\<in>set children. hasMeaningfulText (plainText c)) \<or> (\<exists>c\<in>set children. hasMedia c)"
    by blast
  then show ?case
    by (auto simp: segContent_tokens_Element hasMeaningfulText_concat list_ex_iff
          MEDIA_SELECTOR_mediaElements simp del: tokens.simps)
qed (simp_all add: segContent_single hasMeaningfulText_def)

lemma segContent_tokensOf: "segContent (tokensOf ns) \<longleftrightarrow> meaningfulContent ns"
proof -
  have "segContent (tokensOf ns) \<longleftrightarrow> (\<exists>n\<in>set ns. segContent (tokens n))"
    by (simp add: tokensOf_def segContent_concat)
  also have "\<dots> \<longleftrightarrow> (\<exists>n\<in>set ns. hasMeaningfulText (plainText n)) \<or> (\<exists>n\<in>set ns. hasMedia n)"
    by (auto simp: segContent_tokens)
  also have "\<dots> \<longleftrightarrow> hasMeaningfulText (concat (map plainText ns)) \<or> list_ex hasMedia ns"
    by (simp add: hasMeaningfulText_concat list_ex_iff)
  also have "\<dots> \<longleftrightarrow> meaningfulContent ns"
    by (simp only: meaningfulContent_def hasMeaningfulText_stripped)
  finally show ?thesis .
qed

text \<open>
  C10. When no element below \<open>body\<close> has a block tag, \<open>createAsync\<close> yields at most one
  block: the range from \<open>(body.firstChild ?? body, 0)\<close> to the place after
  \<open>body.lastChild ?? body\<close>. It spans all of \<open>body\<close>: its text is the plain text of
  all the nodes below \<open>body\<close>. It is kept exactly when the content of \<open>body\<close> is
  meaningful in the words of the specification, that is when this text holds a
  character other than white space, space separators, characters without width and the
  byte-order mark, or a media element is below \<open>body\<close>; this is what \<open>rangeHasContent\<close>
  returns on the range. Otherwise there is no block.
\<close>

theorem body_without_block_tags:
  assumes b: "body doc = Some kids" and n: "list_all noBlocks kids"
  shows "blocks (createAsync doc)
           = (if meaningfulContent kids
              then [\<lparr>rroot = docId doc, rstart = startPlace kids, rend = endPlace kids\<rparr>]
              else [])
         \<and> rangeHasContent (bodyTokens kids)
               \<lparr>rroot = docId doc, rstart = startPlace kids, rend = endPlace kids\<rparr>
             = meaningfulContent kids
         \<and> rangeToString (bodyTokens kids)
               \<lparr>rroot = docId doc, rstart = startPlace kids, rend = endPlace kids\<rparr>
             = concat (map plainText kids)"
proof -
  have "cut (docId doc) None 1 (marksOf kids) = ([], None)"
    using cut_unmarked [OF noBlocks_unmarked_list [OF n]] by simp
  from createAsync_blocks(4) [OF b this] show ?thesis
    by (simp add: rangeHasContent_slice whole_content rangeToString_def whole_text
          segContent_tokensOf charsOf_tokensOf)
qed

text \<open>
  The theorem at four bodies: text alone keeps the block, a media element alone (an
  image inside a \<open>span\<close>) keeps the block, and neither white space with a line break nor
  a zero-width space with a comment does. \<open>rangeHasContent\<close> is evaluated on the four
  ranges as well, from the pattern and the selector of the code.
\<close>

theorem body_without_block_tags_witness:
  "blocks (createAsync \<lparr>docId = 0, body = Some [Text (utf16 ''Hi'')]\<rparr>)
     = [\<lparr>rroot = 0, rstart = 1, rend = 2\<rparr>]
   \<and> rangeHasContent (bodyTokens [Text (utf16 ''Hi'')]) \<lparr>rroot = 0, rstart = 1, rend = 2\<rparr>
   \<and> blocks (createAsync \<lparr>docId = 0, body = Some [Element ''span'' [Element ''img'' []]]\<rparr>)
     = [\<lparr>rroot = 0, rstart = 2, rend = 5\<rparr>]
   \<and> rangeHasContent (bodyTokens [Element ''span'' [Element ''img'' []]])
         \<lparr>rroot = 0, rstart = 2, rend = 5\<rparr>
   \<and> blocks (createAsync \<lparr>docId = 0, body = Some
        [Element ''span'' [Text [0x20, 0xA0]], Element ''br'' []]\<rparr>) = []
   \<and> \<not> rangeHasContent (bodyTokens [Element ''span'' [Text [0x20, 0xA0]], Element ''br'' []])
         \<lparr>rroot = 0, rstart = 2, rend = 6\<rparr>
   \<and> blocks (createAsync \<lparr>docId = 0, body = Some [Text [0x200B], Comment (utf16 ''x'')]\<rparr>) = []
   \<and> \<not> rangeHasContent (bodyTokens [Text [0x200B], Comment (utf16 ''x'')])
         \<lparr>rroot = 0, rstart = 1, rend = 3\<rparr>"
proof -
  let ?k1 = "[Text (utf16 ''Hi'')]"
  let ?k2 = "[Element ''span'' [Element ''img'' []]]"
  let ?k3 = "[Element ''span'' [Text [0x20, 0xA0]], Element ''br'' []]"
  let ?k4 = "[Text [0x200B], Comment (utf16 ''x'')]"
  have n: "list_all noBlocks ?k1" "list_all noBlocks ?k2" "list_all noBlocks ?k3"
    "list_all noBlocks ?k4"
    by (simp_all add: blockTags_def)
  have b: "body \<lparr>docId = 0, body = Some k\<rparr> = Some k" for k :: "node list" by simp
  have m: "meaningfulContent ?k1" "meaningfulContent ?k2" "\<not> meaningfulContent ?k3"
    "\<not> meaningfulContent ?k4"
    by (simp_all add: meaningfulContent_def stripped_def regularSpaces_def spaceSeparators_def
          zeroWidthCharacters_def byteOrderMark_def mediaElements_def utf16_def)
  have c: "rangeHasContent (bodyTokens ?k1) \<lparr>rroot = 0, rstart = 1, rend = 2\<rparr>"
    "rangeHasContent (bodyTokens ?k2) \<lparr>rroot = 0, rstart = 2, rend = 5\<rparr>"
    "\<not> rangeHasContent (bodyTokens ?k3) \<lparr>rroot = 0, rstart = 2, rend = 6\<rparr>"
    "\<not> rangeHasContent (bodyTokens ?k4) \<lparr>rroot = 0, rstart = 1, rend = 3\<rparr>"
    by (simp_all add: rangeHasContent_def rangeToString_def clonedTags_def slice_def
          bodyTokens_def tokensOf_def hasMeaningfulText_def invisible_def jsWhiteSpace_def
          MEDIA_SELECTOR_def List.map_filter_simps utf16_def)
  from body_without_block_tags [OF b n(1)] body_without_block_tags [OF b n(2)]
    body_without_block_tags [OF b n(3)] body_without_block_tags [OF b n(4)] m c
  show ?thesis
    by (simp add: startPlace_def endPlace_def tokensOf_def bodyTokens_def)
qed

subsection \<open>The cap\<close>

lemma markedAt_append:
  "markedAt i (xs @ ys) = markedAt i xs @ markedAt (i + length xs) ys"
  by (induction xs arbitrary: i) auto

lemma walk_markedAt:
  "map fst (filter (\<lambda>e. qualifies (snd e)) (walk i ns)) = markedAt i (marksOf ns)"
proof (induction i ns rule: walk.induct)
  case (1 i)
  then show ?case by (simp add: marksOf_def)
next
  case (2 i name children ns)
  then show ?case
    by (simp add: marksOf_Cons marks_Element markedAt_append length_marksOf tokens_Element
          del: marks.simps tokens.simps)
next
  case (3 i d ns)
  then show ?case by (simp add: marksOf_Cons)
next
  case (4 i d ns)
  then show ?case by (simp add: marksOf_Cons)
qed

lemma qualifyingStarts_markedAt: "qualifyingStarts kids = markedAt 1 (marksOf kids)"
  by (simp add: qualifyingStarts_def walk_markedAt)

lemma cut_ranges_Some:
  "map fst (fst (cut root (Some (s, pend)) i ms))
     = map (\<lambda>(a, b). \<lparr>rroot = root, rstart = a, rend = b\<rparr>)
         (zip (s # map Suc (markedAt i ms)) (markedAt i ms))"
proof (induction ms arbitrary: s pend i)
  case Nil
  then show ?case by simp
next
  case (Cons a ms)
  obtain m t where a: "a = (m, t)" by (cases a)
  show ?case
    using Cons [of "Suc i" "[]" "Suc i"] Cons [of s "pend @ [t]" "Suc i"]
    by (auto simp: a split: prod.splits)
qed

lemma cut_ranges_None:
  "map fst (fst (cut root None i ms))
     = map (\<lambda>(a, b). \<lparr>rroot = root, rstart = a, rend = b\<rparr>)
         (zip (map Suc (markedAt i ms)) (tl (markedAt i ms)))"
proof (induction ms arbitrary: i)
  case Nil
  then show ?case by simp
next
  case (Cons a ms)
  obtain m t where a: "a = (m, t)" by (cases a)
  show ?case
    using Cons [of "Suc i"] cut_ranges_Some [of root "Suc i" "[]" "Suc i" ms]
    by (auto simp: a split: prod.splits)
qed

lemma cut_blockRanges:
  "cut (docId doc) None 1 (marksOf kids) = (cs, fin) \<Longrightarrow> map fst cs = blockRanges doc kids"
  using cut_ranges_None [of "docId doc" 1 "marksOf kids"]
  by (simp add: blockRanges_def qualifyingStarts_markedAt zip_map1 case_prod_unfold)

text \<open>Every range that \<open>cut\<close> lists spans the tokens listed with it.\<close>

lemma cut_slices:
  assumes "toks = pre @ map snd ms @ post" "length pre = i"
    and "\<forall>s pend. cur = Some (s, pend) \<longrightarrow> s \<le> i \<and> pend = take (i - s) (drop s toks)"
    and "cut root cur i ms = (cs, fin)"
  shows "\<forall>c\<in>set cs. snd c = slice toks (fst c)"
  using assms
proof (induction ms arbitrary: pre i cur cs fin)
  case Nil
  then show ?case by simp
next
  case (Cons a ms)
  obtain m t where a: "a = (m, t)" by (cases a)
  have toks: "toks = (pre @ [t]) @ map snd ms @ post" "length (pre @ [t]) = Suc i"
    using Cons.prems(1,2) a by simp_all
  have it: "i < length toks" "toks ! i = t"
    using Cons.prems(1,2) a by (simp_all add: nth_append)
  show ?case
  proof (cases m)
    case False
    with Cons.prems(4) a have c: "cut root (extendOpen cur [t]) (Suc i) ms = (cs, fin)" by simp
    have inv: "\<forall>s pend. extendOpen cur [t] = Some (s, pend)
        \<longrightarrow> s \<le> Suc i \<and> pend = take (Suc i - s) (drop s toks)"
    proof (intro allI impI)
      fix s pend assume e: "extendOpen cur [t] = Some (s, pend)"
      then obtain p0 where cur: "cur = Some (s, p0)" and pend: "pend = p0 @ [t]"
        by (cases cur) auto
      from Cons.prems(3) cur have s: "s \<le> i" and p0: "p0 = take (i - s) (drop s toks)" by auto
      have "Suc i - s = Suc (i - s)" using s by arith
      moreover have "i - s < length (drop s toks)" using s it(1) by simp
      moreover have "drop s toks ! (i - s) = t" using s it by simp
      ultimately have "take (Suc i - s) (drop s toks) = p0 @ [t]"
        using p0 by (simp add: take_Suc_conv_app_nth)
      with s pend show "s \<le> Suc i \<and> pend = take (Suc i - s) (drop s toks)" by simp
    qed
    from Cons.IH [OF toks inv c] show ?thesis .
  next
    case True
    obtain cs' fin' where c': "cut root (Some (Suc i, [])) (Suc i) ms = (cs', fin')"
      by (cases "cut root (Some (Suc i, [])) (Suc i) ms")
    with Cons.prems(4) a True have cs: "cs = closing root cur i @ cs'" by simp
    have inv: "\<forall>s pend. Some (Suc i, []) = Some (s, pend)
        \<longrightarrow> s \<le> Suc i \<and> pend = take (Suc i - s) (drop s toks)"
      by simp
    from Cons.IH [OF toks inv c'] have rest: "\<forall>c\<in>set cs'. snd c = slice toks (fst c)" .
    have "\<forall>c\<in>set (closing root cur i). snd c = slice toks (fst c)"
    proof (cases cur)
      case None
      then show ?thesis by simp
    next
      case (Some b)
      obtain s pend where b: "b = (s, pend)" by (cases b)
      with Cons.prems(3) Some show ?thesis by (simp add: slice_def)
    qed
    with rest cs show ?thesis by auto
  qed
qed

lemma cut_body_slices:
  assumes "cut root None 1 (marksOf kids) = (cs, fin)"
  shows "\<forall>c\<in>set cs. segContent (snd c) = rangeHasContent (bodyTokens kids) (fst c)"
proof -
  have one: "length [Open ''body''] = 1" by simp
  have "\<forall>c\<in>set cs. snd c = slice (bodyTokens kids) (fst c)"
    using cut_slices [OF bodyTokens_marks one _ assms] by simp
  then show ?thesis by (simp add: rangeHasContent_slice)
qed

lemma take_filter_all:
  assumes "list_all P (take n xs)"
  shows "take n (filter P xs) = take n xs"
proof -
  have "filter P xs = filter P (take n xs) @ filter P (drop n xs)"
    by (metis append_take_drop_id filter_append)
  also have "filter P (take n xs) = take n xs"
    using assms by (simp add: list_all_iff)
  finally show ?thesis
    by (cases "n \<le> length xs") simp_all
qed

text \<open>
  C6 (as amended). When more than 5000 elements qualify and, for each of the first 5000
  of them, the range from just inside it to just before the next qualifying element has
  meaningful content, \<open>createAsync\<close> returns exactly these 5000 ranges. The function
  is total: it returns an iterator for every document.
\<close>

theorem cap_enforced:
  assumes b: "body doc = Some kids"
    and many: "MAX_BLOCKS < length (qualifyingStarts kids)"
    and content: "list_all (rangeHasContent (bodyTokens kids))
                    (take MAX_BLOCKS (blockRanges doc kids))"
  shows "blocks (createAsync doc) = take MAX_BLOCKS (blockRanges doc kids)
         \<and> length (blocks (createAsync doc)) = 5000"
proof -
  obtain cs fin where c: "cut (docId doc) None 1 (marksOf kids) = (cs, fin)"
    by (cases "cut (docId doc) None 1 (marksOf kids)")
  have r: "map fst cs = blockRanges doc kids" by (rule cut_blockRanges [OF c])
  have len: "MAX_BLOCKS \<le> length cs"
  proof -
    have "length cs = length (blockRanges doc kids)" by (metis r length_map)
    also have "\<dots> = length (qualifyingStarts kids) - 1" by (simp add: blockRanges_def)
    finally show ?thesis using many by simp
  qed
  let ?P = "\<lambda>c. segContent (snd c)"
  have "list_all ?P (take MAX_BLOCKS cs)"
  proof -
    have "\<forall>c\<in>set (take MAX_BLOCKS cs). rangeHasContent (bodyTokens kids) (fst c)"
      using content by (simp add: r [symmetric] take_map list_all_iff)
    moreover have "\<forall>c\<in>set (take MAX_BLOCKS cs). ?P c = rangeHasContent (bodyTokens kids) (fst c)"
      using cut_body_slices [OF c] by (meson in_set_takeD)
    ultimately show ?thesis by (simp add: list_all_iff)
  qed
  then have t: "take MAX_BLOCKS (filter ?P cs) = take MAX_BLOCKS cs"
    by (rule take_filter_all)
  then have "length (take MAX_BLOCKS (filter ?P cs)) = MAX_BLOCKS"
    using len by simp
  then have "MAX_BLOCKS \<le> length (filter ?P cs)" by simp
  from createAsync_blocks(2) [OF b c this] t
  have "blocks (createAsync doc) = take MAX_BLOCKS (blockRanges doc kids)"
    by (simp add: r [symmetric] take_map)
  moreover have "length (take MAX_BLOCKS (blockRanges doc kids)) = MAX_BLOCKS"
    using len by (metis r length_map length_take min.absorb2)
  ultimately show ?thesis by (simp add: MAX_BLOCKS_def)
qed

lemma markedAt_unmarked: "\<forall>x\<in>set xs. \<not> fst x \<Longrightarrow> markedAt i xs = []"
  by (induction xs arbitrary: i) auto

lemma markedAt_leafBlock: "leafBlock n \<Longrightarrow> markedAt i (marks n) = [i]"
proof (cases n)
  case (Element name children)
  assume l: "leafBlock n"
  with Element have c: "list_all noBlocks children" by simp
  have u: "\<forall>x\<in>set (marksOf children @ [(False, Close name)]). \<not> fst x"
    using noBlocks_unmarked_list [OF c] by auto
  have "marks n = (True, Open name) # (marksOf children @ [(False, Close name)])"
    using leafBlock_qualifies [OF l] Element by (simp add: marksOf_def)
  then show ?thesis by (simp add: markedAt_unmarked [OF u])
qed simp_all

lemma length_markedAt_flat:
  "list_all leafBlock ns \<Longrightarrow> length (markedAt i (marksOf ns)) = length ns"
  by (induction ns arbitrary: i)
    (simp_all add: marksOf_def markedAt_append markedAt_leafBlock del: marks.simps)

lemma flatCands_content:
  "list_all (\<lambda>n. segContent (tl (tokens n))) ns \<Longrightarrow>
   \<forall>c\<in>set (flatCands root i ns). segContent (snd c)"
  by (induction ns arbitrary: i) (simp_all del: tokens.simps)

lemma flat_blockRanges_content:
  assumes l: "list_all leafBlock kids"
    and c: "list_all (\<lambda>n. segContent (tl (tokens n))) kids"
  shows "list_all (rangeHasContent (bodyTokens kids)) (blockRanges doc kids)"
proof -
  obtain cs fin where cut: "cut (docId doc) None 1 (marksOf kids) = (cs, fin)"
    by (cases "cut (docId doc) None 1 (marksOf kids)")
  from cut_flat [OF l cut]
  have "set cs \<subseteq> set (flatCands (docId doc) 1 kids)"
    by (metis append_Nil closing.simps(1) set_append sup_ge1)
  with flatCands_content [OF c] have "\<forall>c\<in>set cs. segContent (snd c)" by blast
  with cut_body_slices [OF cut]
  have "\<forall>c\<in>set cs. rangeHasContent (bodyTokens kids) (fst c)" by blast
  then have "list_all (rangeHasContent (bodyTokens kids)) (map fst cs)"
    by (simp add: list_all_iff)
  then show ?thesis by (simp only: cut_blockRanges [OF cut])
qed

theorem cap_enforced_witness:
  "MAX_BLOCKS < length (qualifyingStarts (replicate 5001 (textParagraph (utf16 ''x''))))
   \<and> length (blocks (createAsync
        \<lparr>docId = 0, body = Some (replicate 5001 (textParagraph (utf16 ''x'')))\<rparr>)) = 5000"
proof -
  let ?kids = "replicate 5001 (textParagraph (utf16 ''x''))"
  let ?doc = "\<lparr>docId = 0, body = Some ?kids\<rparr>"
  have l: "list_all leafBlock ?kids"
    by (simp add: list_all_iff textParagraph_leafBlock)
  have "segContent (tl (tokens (textParagraph (utf16 ''x''))))"
    by (simp add: textParagraph_def segContent_textParagraph hasMeaningfulText_def utf16_def
          invisible_def jsWhiteSpace_def)
  then have c: "list_all (\<lambda>n. segContent (tl (tokens n))) ?kids"
    by (simp add: list_all_iff)
  have many: "MAX_BLOCKS < length (qualifyingStarts ?kids)"
    by (simp add: qualifyingStarts_markedAt length_markedAt_flat [OF l] MAX_BLOCKS_def)
  have content: "list_all (rangeHasContent (bodyTokens ?kids))
      (take MAX_BLOCKS (blockRanges ?doc ?kids))"
    using flat_blockRanges_content [OF l c, of ?doc]
    by (auto simp: list_all_iff dest: in_set_takeD)
  have b: "body ?doc = Some ?kids" by simp
  have "length (blocks (createAsync ?doc)) = 5000"
    using cap_enforced [OF b many content] by (rule conjunct2)
  with many show ?thesis by (rule conjI)
qed

lemma hasMeaningfulText_a_t:
  "hasMeaningfulText (utf16 ''a'')" "hasMeaningfulText (utf16 ''t'')"
  by (simp_all add: hasMeaningfulText_def utf16_def invisible_def jsWhiteSpace_def)

lemma marks_trailingTextDiv:
  "marks trailingTextDiv
     = [(True, Open ''div''), (True, Open ''p''), (False, Chars (utf16 ''a'')), (False, Close ''p''),
        (False, Chars (utf16 ''t'')), (False, Close ''div'')]"
  by (simp add: trailingTextDiv_def textParagraph_def qualifies_def hasBlockChild_def
        hasDirectText_def blockTags_def hasMeaningfulText_a_t)

lemma cut_trailingTextDiv:
  "cut root cur i (marks trailingTextDiv)
     = (closing root cur i @ [(\<lparr>rroot = root, rstart = Suc i, rend = Suc i\<rparr>, [])],
        Some (Suc (Suc i), [Chars (utf16 ''a''), Close ''p'', Chars (utf16 ''t''), Close ''div'']))"
  by (simp add: marks_trailingTextDiv)

lemma closing_content_length:
  "length (filter (\<lambda>c. segContent (snd c)) (closing root cur i))
     = length (filter (\<lambda>c. segContent (snd c)) (closing root cur j))"
  by (cases cur) auto

lemma cut_replicate_trailingTextDiv:
  "cut root cur i (marksOf (replicate n trailingTextDiv)) = (cs, fin) \<Longrightarrow>
   length (filter (\<lambda>c. segContent (snd c)) (cs @ closing root fin e))
     = length (filter (\<lambda>c. segContent (snd c)) (closing root cur i)) + n
   \<and> (0 < n \<longrightarrow> fin \<noteq> None)"
proof (induction n arbitrary: cur i cs fin)
  case 0
  then show ?case
    using closing_content_length [of root cur e i] by (simp add: marksOf_def)
next
  case (Suc n)
  let ?seg = "[Chars (utf16 ''a''), Close ''p'', Chars (utf16 ''t''), Close ''div'']"
  obtain cs2 fin2 where c2:
    "cut root (Some (Suc (Suc i), ?seg)) (i + length (marks trailingTextDiv))
       (marksOf (replicate n trailingTextDiv)) = (cs2, fin2)"
    by (cases "cut root (Some (Suc (Suc i), ?seg)) (i + length (marks trailingTextDiv))
       (marksOf (replicate n trailingTextDiv))")
  from Suc.prems have cs: "cs = closing root cur i
        @ [(\<lparr>rroot = root, rstart = Suc i, rend = Suc i\<rparr>, [])] @ cs2" and fin: "fin = fin2"
    by (simp_all add: marksOf_Cons cut_append cut_trailingTextDiv c2 del: marks.simps)
  have seg: "segContent ?seg"
    by (simp add: segContent_Cons [of "Chars (utf16 ''a'')"] segContent_single hasMeaningfulText_a_t)
  from Suc.IH [OF c2] seg
  have "length (filter (\<lambda>c. segContent (snd c)) (cs2 @ closing root fin2 e)) = Suc n"
    by simp
  moreover have "fin2 \<noteq> None"
  proof (cases n)
    case 0
    with c2 show ?thesis by (auto simp: marksOf_def)
  next
    case (Suc k)
    with Suc.IH [OF c2] show ?thesis by simp
  qed
  ultimately show ?case
    by (simp add: cs fin segContent_Nil)
qed

lemma markedAt_replicate_trailingTextDiv:
  "length (markedAt i (marksOf (replicate n trailingTextDiv))) = 2 * n"
  by (induction n arbitrary: i)
    (simp_all add: marksOf_def markedAt_append marks_trailingTextDiv del: marks.simps)

lemma walk_replicate_trailingTextDiv:
  "\<forall>e\<in>set (walk i (replicate n trailingTextDiv)).
      snd e = trailingTextDiv \<or> snd e = textParagraph (utf16 ''a'')"
proof (induction n arbitrary: i)
  case 0
  then show ?case by simp
next
  case (Suc n)
  have "walk i (trailingTextDiv # replicate n trailingTextDiv)
      = (i, trailingTextDiv) # (Suc i, textParagraph (utf16 ''a''))
        # walk (Suc (Suc (Suc (Suc (Suc (Suc i)))))) (replicate n trailingTextDiv)"
    by (simp add: trailingTextDiv_def textParagraph_def)
  with Suc show ?case by simp
qed

text \<open>
  C6 as stated fails: a qualifying element with meaningful content need not yield a
  block. In \<open><div><p>a</p>t</div>\<close> the range opened inside \<open>div\<close> is closed at once before
  its first child \<open>p\<close> and is empty; the text \<open>t\<close> falls into the range of \<open>p\<close>. A body of
  2501 such elements has 5002 qualifying elements, each with meaningful content, and
  yields 2501 blocks.
\<close>

theorem fewer_blocks_than_qualifying_elements:
  "MAX_BLOCKS < length (qualifyingStarts (replicate 2501 trailingTextDiv))
   \<and> list_all (\<lambda>e. elementHasContent (snd e))
        (filter (\<lambda>e. qualifies (snd e)) (walk 1 (replicate 2501 trailingTextDiv)))
   \<and> length (blocks (createAsync \<lparr>docId = 0, body = Some (replicate 2501 trailingTextDiv)\<rparr>))
       = 2501"
proof -
  let ?kids = "replicate 2501 trailingTextDiv"
  let ?doc = "\<lparr>docId = 0, body = Some ?kids\<rparr>"
  have many: "MAX_BLOCKS < length (qualifyingStarts ?kids)"
    by (simp add: qualifyingStarts_markedAt markedAt_replicate_trailingTextDiv MAX_BLOCKS_def)
  have "elementHasContent trailingTextDiv" "elementHasContent (textParagraph (utf16 ''a''))"
    by (simp_all add: elementHasContent_def trailingTextDiv_def textParagraph_def segContent_def
          hasMeaningfulText_def utf16_def invisible_def jsWhiteSpace_def)
  with walk_replicate_trailingTextDiv [of 1 2501]
  have content: "list_all (\<lambda>e. elementHasContent (snd e))
        (filter (\<lambda>e. qualifies (snd e)) (walk 1 ?kids))"
    by (auto simp: list_all_iff)
  obtain cs fin where c: "cut (docId ?doc) None 1 (marksOf ?kids) = (cs, fin)"
    by (cases "cut (docId ?doc) None 1 (marksOf ?kids)")
  from cut_replicate_trailingTextDiv [OF c, of "endPlace ?kids"]
  have len: "length (filter (\<lambda>c. segContent (snd c)) (cs @ closing (docId ?doc) fin (endPlace ?kids)))
      = 2501" and fin: "fin \<noteq> None"
    by simp_all
  then have lt: "length (filter (\<lambda>c. segContent (snd c)) cs) < MAX_BLOCKS"
    by (simp add: MAX_BLOCKS_def)
  have b: "body ?doc = Some ?kids" by simp
  from createAsync_blocks(3) [OF b c lt fin] len
  have "length (blocks (createAsync ?doc)) = 2501"
    by (metis length_map)
  with many content show ?thesis by blast
qed

subsection \<open>Style sheets: a match consumes a prefix\<close>

lemma litEnds_suffix: "litEnds ci l p s = Some (p', s') \<Longrightarrow> \<exists>w. s = w @ s' \<and> length w = length l"
proof (induction ci l p s rule: litEnds.induct)
  case (1 ci p s)
  then show ?case by simp
next
  case (2 ci l ls p)
  then show ?case by simp
next
  case (3 ci l ls p c cs)
  then obtain w where "cs = w @ s'" "length w = length ls"
    by (auto split: if_splits)
  then show ?case by (intro exI [of _ "c # w"]) simp
qed

lemma starEnds_suffix: "(p', s') \<in> set (starEnds C p s) \<Longrightarrow> \<exists>w. s = w @ s'"
proof (induction C p s rule: starEnds.induct)
  case (1 C p)
  then show ?case by simp
next
  case (2 C p c cs)
  then show ?case by (auto split: if_splits)
qed

lemma plusEnds_suffix: "(p', s') \<in> set (plusEnds C p s) \<Longrightarrow> \<exists>w. s = w @ s'"
  by (cases s) (auto split: if_splits dest!: starEnds_suffix intro: exI [of _ "_ # _"])

lemma ends_suffix: "st' \<in> set (ends ci r st) \<Longrightarrow> \<exists>w. rest st = w @ rest st'"
proof (induction r arbitrary: st st')
  case (Chr C)
  then show ?case by (auto split: list.splits if_splits) (metis append_Cons append_Nil)
next
  case (Str l)
  then show ?case
    by (cases "litEnds ci l (prev st) (rest st)") (auto dest!: litEnds_suffix)
next
  case (Seq a b)
  then obtain st1 where "st1 \<in> set (ends ci a st)" "st' \<in> set (ends ci b st1)" by auto
  with Seq.IH show ?case by (metis append.assoc)
next
  case (Alt a b)
  then show ?case by auto
next
  case (Opt a)
  then show ?case by auto
next
  case (Star C)
  then show ?case by (auto dest!: starEnds_suffix)
next
  case (Plus C)
  then show ?case by (auto dest!: plusEnds_suffix)
next
  case (Cap a)
  then show ?case by auto
next
  case Eos
  then show ?case by (auto split: if_splits)
next
  case WordB
  then show ?case by (auto split: if_splits)
qed

subsection \<open>Texts that every match holds\<close>

lemma folded_append: "folded ci (s @ t) = folded ci s @ folded ci t"
  by (simp add: folded_def)

lemma folded_Cons: "folded ci (c # s) = folded ci [c] @ folded ci s"
  by (simp add: folded_def)

lemma litEnds_prefix: "litEnds ci l p s = Some x \<Longrightarrow> prefix (folded ci l) (folded ci s)"
  by (induction ci l p s rule: litEnds.induct) (auto simp: folded_def split: if_splits)

lemma holds_append_right: "holds ci l t \<Longrightarrow> holds ci l (s @ t)"
  unfolding holds_def folded_append by (metis sublist_append)

lemma holds_append_left: "holds ci l s \<Longrightarrow> holds ci l (s @ t)"
  unfolding holds_def folded_append by (metis sublist_append)

lemma holds_Cons: "holds ci l cs \<Longrightarrow> holds ci l (c # cs)"
  using holds_append_right [of ci l cs "[c]"] by simp

lemma mentions_holds:
  "mentions r (utf16 l) \<Longrightarrow> st' \<in> set (ends ci r st) \<Longrightarrow> holds ci l (rest st)"
proof (induction r arbitrary: st st')
  case (Str l')
  then show ?case
    by (cases "litEnds ci (utf16 l) (prev st) (rest st)")
      (auto simp: holds_def dest!: litEnds_prefix prefix_imp_sublist)
next
  case (Seq a b)
  from Seq.prems(2) obtain st1 where 1: "st1 \<in> set (ends ci a st)" and 2: "st' \<in> set (ends ci b st1)"
    by auto
  show ?case
  proof (cases "mentions a (utf16 l)")
    case True
    from Seq.IH(1) [OF True 1] show ?thesis .
  next
    case False
    with Seq.prems(1) have "mentions b (utf16 l)" by simp
    from Seq.IH(2) [OF this 2] have "holds ci l (rest st1)" .
    moreover from ends_suffix [OF 1] obtain w where "rest st = w @ rest st1" ..
    ultimately show ?thesis by (simp add: holds_append_right)
  qed
next
  case (Alt a b)
  then show ?case by auto
next
  case (Cap a)
  then show ?case by auto
qed simp_all

lemma matchAt_holds: "mentions r (utf16 l) \<Longrightarrow> matchAt ci r p s = Some st \<Longrightarrow> holds ci l s"
  using mentions_holds [of r l st ci "\<lparr>prev = p, rest = s, caps = []\<rparr>"]
  by (auto simp: matchAt_def split: list.splits)

lemma searchFrom_holds: "mentions r (utf16 l) \<Longrightarrow> searchFrom ci r p s \<Longrightarrow> holds ci l s"
proof (induction s arbitrary: p)
  case Nil
  then show ?case using matchAt_holds by fastforce
next
  case (Cons c cs)
  show ?case
  proof (cases "matchAt ci r p (c # cs)")
    case None
    with Cons.prems have "searchFrom ci r (Some c) cs" by simp
    from Cons.IH [OF Cons.prems(1) this] show ?thesis by (rule holds_Cons)
  next
    case (Some st)
    from matchAt_holds [OF Cons.prems(1) Some] show ?thesis .
  qed
qed

lemma test_holds: "mentions r (utf16 l) \<Longrightarrow> \<not> holds ci l s \<Longrightarrow> \<not> test ci r s"
  using searchFrom_holds by (auto simp: test_def)

lemma replaceAllFrom_no_match:
  "\<not> searchFrom ci r p s \<Longrightarrow> replaceAllFrom ci r f p s = s"
proof (induction s arbitrary: p)
  case Nil
  then show ?case by (simp add: replaceAllFrom.simps [of _ _ _ _ "[]"])
next
  case (Cons c cs)
  then have "matchAt ci r p (c # cs) = None" "\<not> searchFrom ci r (Some c) cs"
    by (auto split: if_splits)
  with Cons.IH show ?case by (simp add: replaceAllFrom.simps [of _ _ _ _ "c # cs"])
qed

lemma replaceAll_no_match: "\<not> test ci r s \<Longrightarrow> replaceAll ci r f s = s"
  unfolding test_def replaceAll_def by (rule replaceAllFrom_no_match)

lemma replaceAll_not_held: "mentions r (utf16 l) \<Longrightarrow> \<not> holds ci l s \<Longrightarrow> replaceAll ci r f s = s"
  using replaceAll_no_match test_holds by blast

lemma utf16_append: "utf16 (a @ b) = utf16 a @ utf16 b"
  by (simp add: utf16_def)

lemma holds_longer: "holds ci (a @ l) s \<Longrightarrow> holds ci l s"
  unfolding holds_def utf16_append folded_append
  using sublist_order.order.trans [OF sublist_append_leftI] by blast

lemma holds_prefix: "prefix xs ys \<Longrightarrow> holds ci l xs \<Longrightarrow> holds ci l ys"
  by (auto simp: prefix_def holds_append_left)

lemma holds_char: "holds False [c] s \<longleftrightarrow> of_char c \<in> set s"
  by (induction s) (auto simp: holds_def folded_def utf16_def sublist_Cons_right)

lemma holds_across:
  assumes "holds ci l (xs @ c # ys)" and "folded ci [c] = [d]"
    and "d \<notin> set (folded ci (utf16 l))"
  shows "holds ci l xs \<or> holds ci l ys"
proof -
  let ?l = "folded ci (utf16 l)"
  from assms(1,2) have "sublist ?l (folded ci xs @ d # folded ci ys)"
    by (simp add: holds_def folded_append folded_Cons [of ci c ys])
  then consider "sublist ?l (folded ci xs)" | "sublist ?l (d # folded ci ys)"
    | a b where "?l = a @ b" "suffix a (folded ci xs)" "prefix b (d # folded ci ys)"
    unfolding sublist_append by blast
  then show ?thesis
  proof cases
    case 1
    then show ?thesis by (simp add: holds_def)
  next
    case 2
    then have "prefix ?l (d # folded ci ys) \<or> sublist ?l (folded ci ys)"
      by (simp add: sublist_Cons_right)
    with assms(3) show ?thesis
      by (cases ?l) (auto simp: holds_def)
  next
    case 3
    with assms(3) have "b = []" by (cases b) auto
    with 3 have "suffix ?l (folded ci xs)" by simp
    then show ?thesis by (simp add: holds_def)
  qed
qed

subsection \<open>Inline declarations\<close>

lemma mentions_ruleRegex: "mentions ruleRegex (utf16 ''{'')"
  by (simp add: ruleRegex_def lit_def)

lemma eachRule_inline: "of_char CHR ''{'' \<notin> set css \<Longrightarrow> eachRule f css = css"
  unfolding eachRule_def
  by (rule replaceAll_not_held [OF mentions_ruleRegex]) (simp add: holds_char)

lemma substitutions_mention:
  "list_all (\<lambda>(r, f). list_ex (\<lambda>w. mentions r (utf16 w)) longWords) (substitutions N)"
  by (simp add: substitutions_def decl_def propColon_def lead_def lit_def utf16_def longWords_def
        valueWords_def)

lemma holds_longWords:
  assumes "\<forall>w\<in>set valueWords. \<not> holds True w css" and "w \<in> set longWords"
  shows "\<not> holds True w css"
proof -
  from assms(1) have "\<not> holds True ''user-select'' css" by (simp add: valueWords_def)
  then have "\<not> holds True ''-webkit-user-select'' css" "\<not> holds True ''-moz-user-select'' css"
    "\<not> holds True ''-ms-user-select'' css" "\<not> holds True ''-o-user-select'' css"
    using holds_longer [of True "''-webkit-''" "''user-select''" css]
      holds_longer [of True "''-moz-''" "''user-select''" css]
      holds_longer [of True "''-ms-''" "''user-select''" css]
      holds_longer [of True "''-o-''" "''user-select''" css]
    by auto
  with assms show ?thesis by (auto simp: longWords_def)
qed

lemma foldl_replaceAll_plain:
  assumes "\<forall>w\<in>set longWords. \<not> holds True w css"
    and "list_all (\<lambda>(r, f). list_ex (\<lambda>w. mentions r (utf16 w)) longWords) ps"
  shows "foldl (\<lambda>s (r, f). replaceAll True r f s) css ps = css"
  using assms(2)
proof (induction ps)
  case Nil
  then show ?case by simp
next
  case (Cons a ps)
  obtain r f where a: "a = (r, f)" by (cases a)
  with Cons.prems obtain l where "l \<in> set longWords" "mentions r (utf16 l)"
    by (auto simp: list_ex_iff)
  with assms(1) have "replaceAll True r f css = css"
    using replaceAll_not_held by blast
  with Cons a show ?case by simp
qed

lemma substituteValues_plain:
  assumes "\<forall>w\<in>set valueWords. \<not> holds True w css"
  shows "substituteValues N css = css"
  unfolding substituteValues_def
  using holds_longWords [OF assms] substitutions_mention
  by (intro foldl_replaceAll_plain) auto

lemma ends_Eos: "st' \<in> set (ends ci (Seq a Eos) st) \<Longrightarrow> rest st' = []"
  by (auto split: if_splits)

lemma ends_Eos2:
  assumes "st' \<in> set (ends ci (Seq a (Seq b Eos)) st)"
  shows "rest st' = []"
proof -
  have "ends ci (Seq a (Seq b Eos)) st = concat (map (ends ci (Seq b Eos)) (ends ci a st))"
    by (rule ends.simps)
  with assms obtain st1 where "st' \<in> set (ends ci (Seq b Eos) st1)"
    by (auto simp del: ends.simps)
  then show ?thesis by (rule ends_Eos)
qed

lemma matchAt_Eos2:
  assumes "matchAt ci (Seq a (Seq b Eos)) p s = Some st"
  shows "rest st = []"
proof -
  from assms have "st \<in> set (ends ci (Seq a (Seq b Eos)) \<lparr>prev = p, rest = s, caps = []\<rparr>)"
    unfolding matchAt_def by (auto simp del: ends.simps split: list.splits)
  then show ?thesis by (rule ends_Eos2)
qed

lemma replaceFirstFrom_cut:
  "prefix (replaceFirstFrom ci (Seq a (Seq b Eos)) (\<lambda>m cs. []) p s) s"
proof (induction s arbitrary: p)
  case Nil
  show ?case by (cases "matchAt ci (Seq a (Seq b Eos)) p []") simp_all
next
  case (Cons c cs)
  show ?case
  proof (cases "matchAt ci (Seq a (Seq b Eos)) p (c # cs)")
    case None
    with Cons show ?thesis by simp
  next
    case (Some st)
    with matchAt_Eos2 [OF Some] show ?thesis by simp
  qed
qed

lemma searchFrom_append: "(\<And>q. matchAt ci r q v \<noteq> None) \<Longrightarrow> searchFrom ci r p (u @ v)"
proof (induction u arbitrary: p)
  case Nil
  then show ?case by (cases v) simp_all
next
  case (Cons c u)
  then show ?case by simp
qed

lemma test_shim: "test False (propColon ''margin-bottom'') (xs @ utf16 (''; '' @ shim))"
proof -
  have "matchAt False (propColon ''margin-bottom'') q (utf16 shim) \<noteq> None" for q
    by (simp add: matchAt_def propColon_def lit_def utf16_def shim_def jsWhiteSpace_def)
  from searchFrom_append [of False _ "utf16 shim" None "xs @ utf16 ''; ''", OF this]
  show ?thesis by (simp add: test_def utf16_def)
qed

lemma shim_words: "list_all (\<lambda>w. \<not> holds True w (utf16 ('' '' @ shim))) valueWords"
  by (simp add: valueWords_def holds_def folded_def utf16_def shim_def lowerCase_def
        sublist_code(3))

lemma shim_plain: "w \<in> set valueWords \<Longrightarrow> \<not> holds True w (utf16 ('' '' @ shim))"
  using shim_words by (simp add: list_all_iff)

lemma pageBreakInline_cases:
  "pageBreakInline css = css
     \<or> (\<exists>xs. prefix xs css \<and> pageBreakInline css = xs @ utf16 (''; '' @ shim))"
proof (cases "pageBreakInline css = css")
  case True
  then show ?thesis ..
next
  case False
  let ?xs = "replaceFirst False (seqs [Opt (lit '';''), Star Space, Eos]) (\<lambda>m cs. []) css"
  from False have "pageBreakInline css = ?xs @ utf16 (''; '' @ shim)"
    by (simp add: pageBreakInline_def shim_def split: if_splits)
  moreover have "prefix ?xs css"
    unfolding replaceFirst_def seqs.simps by (rule replaceFirstFrom_cut)
  ultimately show ?thesis by blast
qed

lemma pageBreakInline_inline:
  assumes "of_char CHR ''{'' \<notin> set css"
  shows "of_char CHR ''{'' \<notin> set (pageBreakInline css)"
proof -
  from pageBreakInline_cases [of css] show ?thesis
  proof
    assume "pageBreakInline css = css"
    with assms show ?thesis by simp
  next
    assume "\<exists>xs. prefix xs css \<and> pageBreakInline css = xs @ utf16 (''; '' @ shim)"
    then obtain xs where xs: "prefix xs css" "pageBreakInline css = xs @ utf16 (''; '' @ shim)"
      by blast
    from xs(1) assms have "of_char CHR ''{'' \<notin> set xs" using set_mono_prefix by fastforce
    with xs(2) show ?thesis by (simp add: shim_def utf16_def)
  qed
qed

lemma valueWords_semicolon:
  "list_all (\<lambda>w. of_char CHR '';'' \<notin> set (folded True (utf16 w))) valueWords"
  by (simp add: valueWords_def folded_def utf16_def lowerCase_def)

lemma folded_semicolon: "folded True [of_char CHR '';''] = [of_char CHR '';'']"
  by (simp add: folded_def lowerCase_def)

lemma pageBreakInline_plain:
  assumes "\<forall>w\<in>set valueWords. \<not> holds True w css"
  shows "\<forall>w\<in>set valueWords. \<not> holds True w (pageBreakInline css)"
proof -
  from pageBreakInline_cases [of css] show ?thesis
  proof
    assume "pageBreakInline css = css"
    with assms show ?thesis by simp
  next
    assume "\<exists>xs. prefix xs css \<and> pageBreakInline css = xs @ utf16 (''; '' @ shim)"
    then obtain xs where xs: "prefix xs css"
      "pageBreakInline css = xs @ of_char CHR '';'' # utf16 ('' '' @ shim)"
      by (auto simp: utf16_def)
    show ?thesis
    proof
      fix w
      assume w: "w \<in> set valueWords"
      show "\<not> holds True w (pageBreakInline css)"
      proof
        assume "holds True w (pageBreakInline css)"
        with xs(2) have "holds True w (xs @ of_char CHR '';'' # utf16 ('' '' @ shim))" by simp
        moreover from w valueWords_semicolon
        have "of_char CHR '';'' \<notin> set (folded True (utf16 w))"
          by (simp add: list_all_iff)
        ultimately have "holds True w xs \<or> holds True w (utf16 ('' '' @ shim))"
          using folded_semicolon by (intro holds_across)
        with holds_prefix [OF xs(1)] shim_plain [OF w] assms w show False by blast
      qed
    qed
  qed
qed

lemma pageBreakInline_twice: "pageBreakInline (pageBreakInline css) = pageBreakInline css"
proof -
  from pageBreakInline_cases [of css] show ?thesis
  proof
    assume "pageBreakInline css = css"
    then show ?thesis by simp
  next
    assume "\<exists>xs. prefix xs css \<and> pageBreakInline css = xs @ utf16 (''; '' @ shim)"
    then obtain xs where xs: "pageBreakInline css = xs @ utf16 (''; '' @ shim)" by blast
    have "pageBreakInline (xs @ utf16 (''; '' @ shim)) = xs @ utf16 (''; '' @ shim)"
      unfolding pageBreakInline_def [of "xs @ utf16 (''; '' @ shim)"] using test_shim [of xs]
      by simp
    with xs show ?thesis by simp
  qed
qed

lemma transform_inline:
  assumes "of_char CHR ''{'' \<notin> set css" and "\<forall>w\<in>set valueWords. \<not> holds True w css"
  shows "transformStylesheet N css vertical = pageBreakInline css"
  using assms(1) pageBreakInline_inline [OF assms(1)]
    substituteValues_plain [OF pageBreakInline_plain [OF assms(2)]]
  by (simp add: transformStylesheet_def eachRule_inline)

text \<open>
  The inline path, for comparison. On a declaration list without \<open>{\<close> that holds none of
  the words of the value passes, only the inline page-break pass rewrites. It strips
  \<open>;?\s*$\<close> before it appends \<open>; margin-bottom: ...\<close>, so what it appends is separated from
  the declaration before it, and its guard finds the appended declaration on the next
  application: there the transform is idempotent.
\<close>

lemma inline_shim_appended_once:
  assumes "of_char CHR ''{'' \<notin> set css" and "\<forall>w\<in>set valueWords. \<not> holds True w css"
  shows "transformStylesheet N (transformStylesheet N css vertical) vertical
           = transformStylesheet N css vertical"
proof -
  have "transformStylesheet N (pageBreakInline css) vertical = pageBreakInline (pageBreakInline css)"
    using pageBreakInline_inline [OF assms(1)] pageBreakInline_plain [OF assms(2)]
    by (rule transform_inline)
  then show ?thesis
    by (simp only: transform_inline [OF assms] pageBreakInline_twice)
qed

subsection \<open>A style sheet of one rule\<close>

lemma concat_starEnds:
  assumes "\<forall>c\<in>set w. inClass C c"
    and "\<And>p' c cs. inClass C c \<Longrightarrow> K (p', c # cs) = []"
    and "t = [] \<or> \<not> inClass C (hd t)"
  shows "concat (map K (starEnds C p (w @ t))) = K (lastOr p w, t)"
  using assms(1)
proof (induction w arbitrary: p)
  case Nil
  with assms(3) show ?case by (cases t) (auto simp: lastOr_def)
next
  case (Cons c w)
  then show ?case using assms(2) by (simp add: lastOr_def)
qed

lemma concat_plusEnds:
  assumes "w \<noteq> []" "\<forall>c\<in>set w. inClass C c"
    and "\<And>p' c cs. inClass C c \<Longrightarrow> K (p', c # cs) = []"
    and "t = [] \<or> \<not> inClass C (hd t)"
  shows "concat (map K (plusEnds C p (w @ t))) = K (Some (last w), t)"
proof -
  from assms(1) obtain c w' where w: "w = c # w'" by (cases w) auto
  with assms(2) have "inClass C c" "\<forall>c\<in>set w'. inClass C c" by auto
  then show ?thesis
    using concat_starEnds [of w' C K t "Some c", OF _ assms(3,4)] by (simp add: w lastOr_def)
qed

lemma take_consumed: "take (length (u @ v) - length v) (u @ v) = u"
  by simp

lemma ends_Plus_then:
  assumes "rest st = w @ t" "w \<noteq> []" "\<forall>c\<in>set w. inClass C c" "t = [] \<or> \<not> inClass C (hd t)"
    and "\<And>st' c cs. rest st' = c # cs \<Longrightarrow> inClass C c \<Longrightarrow> ends ci k st' = []"
  shows "ends ci (Seq (Plus C) k) st = ends ci k (st\<lparr>prev := Some (last w), rest := t\<rparr>)"
proof -
  let ?K = "\<lambda>x. ends ci k (case x of (p, s) \<Rightarrow> st\<lparr>prev := p, rest := s\<rparr>)"
  have "concat (map ?K (plusEnds C (prev st) (w @ t))) = ?K (Some (last w), t)"
    by (rule concat_plusEnds [OF assms(2,3) _ assms(4)]) (simp add: assms(5))
  then show ?thesis by (simp add: assms(1) comp_def)
qed

lemma ends_CapPlus_then:
  assumes "rest st = w @ t" "w \<noteq> []" "\<forall>c\<in>set w. inClass C c" "t = [] \<or> \<not> inClass C (hd t)"
    and "\<And>st' c cs. rest st' = c # cs \<Longrightarrow> inClass C c \<Longrightarrow> ends ci k st' = []"
  shows "ends ci (Seq (Cap (Plus C)) k) st
           = ends ci k (st\<lparr>prev := Some (last w), rest := t, caps := caps st @ [w]\<rparr>)"
proof -
  let ?K = "\<lambda>x. ends ci k (case x of (p, s) \<Rightarrow>
              st\<lparr>prev := p, rest := s, caps := caps st @ [take (length (w @ t) - length s) (w @ t)]\<rparr>)"
  have "concat (map ?K (plusEnds C (prev st) (w @ t))) = ?K (Some (last w), t)"
    by (rule concat_plusEnds [OF assms(2,3) _ assms(4)]) (simp add: assms(5))
  then show ?thesis by (simp add: assms(1) comp_def split_def)
qed

lemma ends_Str_then:
  "ends ci (Seq (Str l) k) st
     = (case litEnds ci l (prev st) (rest st) of
          None \<Rightarrow> []
        | Some (p, s) \<Rightarrow> ends ci k (st\<lparr>prev := p, rest := s\<rparr>))"
  by (simp split: option.splits)

lemma matchAt_rule:
  assumes sel: "sel \<noteq> []" "0x7B \<notin> set sel" and decls: "decls \<noteq> []" "0x7D \<notin> set decls"
  shows "matchAt False ruleRegex p (sel @ 0x7B # decls @ 0x7D # r)
           = Some \<lparr>prev = Some 0x7D, rest = r, caps = [sel, 0x7B # decls @ [0x7D]]\<rparr>"
proof -
  let ?X = "Seq (Plus (NoneOf [0x7D])) (Str [0x7D])"
  let ?B = "Cap (Seq (Str [0x7B]) ?X)"
  let ?s = "sel @ 0x7B # decls @ 0x7D # r"
  have X: "ends False ?X \<lparr>prev = Some 0x7B, rest = decls @ 0x7D # r, caps = [sel]\<rparr>
             = [\<lparr>prev = Some 0x7D, rest = r, caps = [sel]\<rparr>]"
    by (subst ends_Plus_then [of _ decls "0x7D # r"]) (use decls in auto)
  have B: "ends False ?B \<lparr>prev = Some (last sel), rest = 0x7B # decls @ 0x7D # r, caps = [sel]\<rparr>
             = [\<lparr>prev = Some 0x7D, rest = r, caps = [sel, 0x7B # decls @ [0x7D]]\<rparr>]"
    using take_consumed [of "0x7B # decls @ [0x7D]" r]
    by (simp add: ends_Str_then X del: ends.simps(3))
  have "ends False (Seq (Cap (Plus (NoneOf [0x7B]))) ?B) \<lparr>prev = p, rest = ?s, caps = []\<rparr>
          = ends False ?B \<lparr>prev = Some (last sel), rest = 0x7B # decls @ 0x7D # r, caps = [sel]\<rparr>"
    by (subst ends_CapPlus_then [of _ sel "0x7B # decls @ 0x7D # r"]) (use sel in auto)
  with B show ?thesis by (simp add: matchAt_def ruleRegex_def lit_def utf16_def)
qed

lemma matchAt_rule_Nil: "matchAt False ruleRegex p [] = None"
  by (simp add: matchAt_def ruleRegex_def)

lemma eachRule_single:
  assumes "sel \<noteq> []" "of_char CHR ''{'' \<notin> set sel"
    and "decls \<noteq> []" "of_char CHR ''}'' \<notin> set decls"
  shows "eachRule f (sel @ utf16 ''{'' @ decls @ utf16 ''}'')
           = f (sel @ utf16 ''{'' @ decls @ utf16 ''}'') sel (utf16 ''{'' @ decls @ utf16 ''}'')"
proof -
  from assms have "matchAt False ruleRegex None (sel @ 0x7B # decls @ 0x7D # [])
      = Some \<lparr>prev = Some 0x7D, rest = [], caps = [sel, 0x7B # decls @ [0x7D]]\<rparr>"
    by (intro matchAt_rule) simp_all
  then show ?thesis
    by (simp add: eachRule_def replaceAll_def replaceAllFrom.simps [of _ _ _ _ "_ @ _"]
        replaceAllFrom.simps [of _ _ _ _ "[]"] matchAt_rule_Nil grp_def utf16_def)
qed

lemma alignRule_skip: "\<not> holds False ''text-align'' block \<Longrightarrow> alignRule m selector block = m"
  using test_holds [of "declEnd ''text-align'' ''center''" "''text-align''" False block]
  by (simp add: alignRule_def declEnd_def decl_def lit_def)

lemma nowrapRule_skip: "\<not> holds False ''white-space'' block \<Longrightarrow> nowrapRule m selector block = m"
  using test_holds [of "declEnd ''white-space'' ''nowrap''" "''white-space''" False block]
  by (simp add: nowrapRule_def declEnd_def decl_def lit_def)

lemma pageBreakRule_skip:
  "\<not> holds False ''page-break-after'' block \<Longrightarrow> pageBreakRule m selector block = m"
  using test_holds [of "declEnd ''page-break-after'' ''always''" "''page-break-after''" False block]
  by (simp add: pageBreakRule_def declEnd_def decl_def lit_def)

lemma bodyRule_skip:
  "\<not> holds True ''body'' selector \<Longrightarrow> bodyRule m selector block = selector @ block"
  using test_holds [of "seqs [WordB, lit ''body'', WordB]" "''body''" True selector]
  by (simp add: bodyRule_def lit_def)

text \<open>
  The transform on a sheet of one rule \<open>sel{decls}\<close> that triggers none of the passes
  before and after the bleed pass: the result is what the bleed pass makes of the rule.
\<close>

lemma transform_single_rule:
  assumes sel: "sel \<noteq> []" "of_char CHR ''{'' \<notin> set sel"
    and decls: "decls \<noteq> []" "of_char CHR ''}'' \<notin> set decls"
    and skip: "\<not> holds False ''text-align'' (utf16 ''{'' @ decls @ utf16 ''}'')"
      "\<not> holds False ''white-space'' (utf16 ''{'' @ decls @ utf16 ''}'')"
      "\<not> holds False ''page-break-after'' (utf16 ''{'' @ decls @ utf16 ''}'')"
      "\<not> holds True ''body'' sel"
    and bleed: "bleedRule False (sel @ utf16 ''{'' @ decls @ utf16 ''}'') sel
                  (utf16 ''{'' @ decls @ utf16 ''}'')
                  = sel @ utf16 ''{'' @ decls' @ utf16 ''}''"
    and decls': "decls' \<noteq> []" "of_char CHR ''}'' \<notin> set decls'"
    and plain: "\<forall>w\<in>set valueWords. \<not> holds True w (sel @ utf16 ''{'' @ decls' @ utf16 ''}'')"
  shows "transformStylesheet N (sel @ utf16 ''{'' @ decls @ utf16 ''}'') False
           = sel @ utf16 ''{'' @ decls' @ utf16 ''}''"
proof -
  let ?css = "sel @ utf16 ''{'' @ decls @ utf16 ''}''"
  let ?out = "sel @ utf16 ''{'' @ decls' @ utf16 ''}''"
  have 1: "eachRule alignRule ?css = ?css"
    by (simp only: eachRule_single [OF sel decls] alignRule_skip [OF skip(1)])
  have 2: "eachRule nowrapRule ?css = ?css"
    by (simp only: eachRule_single [OF sel decls] nowrapRule_skip [OF skip(2)])
  have 3: "eachRule pageBreakRule ?css = ?css"
    by (simp only: eachRule_single [OF sel decls] pageBreakRule_skip [OF skip(3)])
  have 4: "eachRule (bleedRule False) ?css = ?out"
    by (simp only: eachRule_single [OF sel decls] bleed)
  have 5: "eachRule bodyRule ?out = ?out"
    by (simp only: eachRule_single [OF sel decls'] bodyRule_skip [OF skip(4)])
  have 6: "of_char CHR ''{'' \<in> set ?css" by (simp add: utf16_def)
  show ?thesis
    unfolding transformStylesheet_def Let_def
    by (simp only: 1 2 3 4 5 6 substituteValues_plain [OF plain] not_True_eq_False if_False)
qed

subsection \<open>Two bleed declarations in one rule\<close>

text \<open>
  Searches on long texts, evaluated: where the head of the expression rules a match out
  the search moves on without running the matcher.
\<close>

lemma canStart_ends: "\<not> canStart ci r c \<Longrightarrow> rest st = c # cs \<Longrightarrow> ends ci r st = []"
proof (induction r arbitrary: st)
  case (Str l)
  then show ?case by (cases l) (auto split: if_splits)
qed (auto split: if_splits)

lemma canStart_matchAt: "\<not> canStart ci r c \<Longrightarrow> matchAt ci r p (c # cs) = None"
  using canStart_ends [of ci r c "\<lparr>prev = p, rest = c # cs, caps = []\<rparr>" cs]
  by (simp add: matchAt_def)

lemma searchFrom_step:
  "searchFrom ci r p (c # cs)
     = (if canStart ci r c
        then (if matchAt ci r p (c # cs) \<noteq> None then True else searchFrom ci r (Some c) cs)
        else searchFrom ci r (Some c) cs)"
  by (simp add: canStart_matchAt)

lemma replaceFirstFrom_step:
  "replaceFirstFrom ci r f p (c # cs)
     = (if canStart ci r c
        then (case matchAt ci r p (c # cs) of
                Some st \<Rightarrow> f (take (length (c # cs) - length (rest st)) (c # cs)) (caps st) @ rest st
              | None \<Rightarrow> c # replaceFirstFrom ci r f (Some c) cs)
        else c # replaceFirstFrom ci r f (Some c) cs)"
  by (simp add: canStart_matchAt)

lemmas bleed_evals = test_def searchFrom_step replaceFirst_def replaceFirstFrom_step matchAt_def
  propColon_def lit_def utf16_def bleedRegex_def appendToBlock_def bleedRule_def bleedDir_def
  unlessSet_def jsWhiteSpace_def

lemmas word_evals = holds_def folded_def utf16_def lowerCase_def sublist_code(3) valueWords_def

lemma skip_selector: "\<not> holds True ''body'' (utf16 ''a'')"
  by (simp add: word_evals)

text \<open>
  The rule \<open>a{duokan-bleed:left;duokan-bleed:top}\<close>, whose last declaration has no semicolon
  behind it: the first and the second application.
\<close>

lemma skip_unterminated:
  "list_all (\<lambda>w. \<not> holds False w (utf16 ''{duokan-bleed:left;duokan-bleed:top}''))
     [''text-align'', ''white-space'', ''page-break-after'']"
  by (simp add: word_evals)

lemma bleed_unterminated:
  "bleedRule False m (utf16 ''a'') (utf16 ''{duokan-bleed:left;duokan-bleed:top}'')
     = utf16 ''a{duokan-bleed:left;duokan-bleed:top margin-left: calc(-1 * var(--page-margin-left)) !important;  position: relative !important;  overflow: hidden !important;  display: flow-root !important; }''"
  by (simp add: bleed_evals del: searchFrom.simps(2) replaceFirstFrom.simps(2))

lemma plain_unterminated:
  "list_all (\<lambda>w. \<not> holds True w (utf16 ''a{duokan-bleed:left;duokan-bleed:top margin-left: calc(-1 * var(--page-margin-left)) !important;  position: relative !important;  overflow: hidden !important;  display: flow-root !important; }'')) valueWords"
  by (simp add: word_evals)

lemma transform_unterminated:
  "transformStylesheet N (utf16 ''a{duokan-bleed:left;duokan-bleed:top}'') False
     = utf16 ''a{duokan-bleed:left;duokan-bleed:top margin-left: calc(-1 * var(--page-margin-left)) !important;  position: relative !important;  overflow: hidden !important;  display: flow-root !important; }''"
  using transform_single_rule [of "utf16 ''a''" "utf16 ''duokan-bleed:left;duokan-bleed:top''"
      "utf16 ''duokan-bleed:left;duokan-bleed:top margin-left: calc(-1 * var(--page-margin-left)) !important;  position: relative !important;  overflow: hidden !important;  display: flow-root !important; ''" N]
    skip_unterminated skip_selector plain_unterminated bleed_unterminated [of "utf16 ''a{duokan-bleed:left;duokan-bleed:top}''"]
  by (simp add: list_all_iff utf16_def)

lemma skip_unterminated_again:
  "list_all (\<lambda>w. \<not> holds False w (utf16 ''{duokan-bleed:left;duokan-bleed:top margin-left: calc(-1 * var(--page-margin-left)) !important;  position: relative !important;  overflow: hidden !important;  display: flow-root !important; }''))
     [''text-align'', ''white-space'', ''page-break-after'']"
  by (simp add: word_evals)

lemma bleed_unterminated_again:
  "bleedRule False m (utf16 ''a'') (utf16 ''{duokan-bleed:left;duokan-bleed:top margin-left: calc(-1 * var(--page-margin-left)) !important;  position: relative !important;  overflow: hidden !important;  display: flow-root !important; }'')
     = utf16 ''a{duokan-bleed:left;duokan-bleed:top margin-left: calc(-1 * var(--page-margin-left)) !important;  position: relative !important;  overflow: hidden !important;  display: flow-root !important;  margin-top: calc(-1 * var(--page-margin-top)) !important; }''"
  by (simp add: bleed_evals del: searchFrom.simps(2) replaceFirstFrom.simps(2))

lemma plain_unterminated_again:
  "list_all (\<lambda>w. \<not> holds True w (utf16 ''a{duokan-bleed:left;duokan-bleed:top margin-left: calc(-1 * var(--page-margin-left)) !important;  position: relative !important;  overflow: hidden !important;  display: flow-root !important;  margin-top: calc(-1 * var(--page-margin-top)) !important; }'')) valueWords"
  by (simp add: word_evals)

lemma transform_unterminated_again:
  "transformStylesheet N (utf16 ''a{duokan-bleed:left;duokan-bleed:top margin-left: calc(-1 * var(--page-margin-left)) !important;  position: relative !important;  overflow: hidden !important;  display: flow-root !important; }'') False
     = utf16 ''a{duokan-bleed:left;duokan-bleed:top margin-left: calc(-1 * var(--page-margin-left)) !important;  position: relative !important;  overflow: hidden !important;  display: flow-root !important;  margin-top: calc(-1 * var(--page-margin-top)) !important; }''"
  using transform_single_rule [of "utf16 ''a''" "utf16 ''duokan-bleed:left;duokan-bleed:top margin-left: calc(-1 * var(--page-margin-left)) !important;  position: relative !important;  overflow: hidden !important;  display: flow-root !important; ''"
      "utf16 ''duokan-bleed:left;duokan-bleed:top margin-left: calc(-1 * var(--page-margin-left)) !important;  position: relative !important;  overflow: hidden !important;  display: flow-root !important;  margin-top: calc(-1 * var(--page-margin-top)) !important; ''" N]
    skip_unterminated_again skip_selector plain_unterminated_again bleed_unterminated_again [of "utf16 ''a{duokan-bleed:left;duokan-bleed:top margin-left: calc(-1 * var(--page-margin-left)) !important;  position: relative !important;  overflow: hidden !important;  display: flow-root !important; }''"]
  by (simp add: list_all_iff utf16_def)

text \<open>
  The same rule with the semicolon, \<open>a{duokan-bleed:left;duokan-bleed:top;}\<close>: the first
  application appends both margins, the second changes nothing.
\<close>

lemma skip_terminated:
  "list_all (\<lambda>w. \<not> holds False w (utf16 ''{duokan-bleed:left;duokan-bleed:top;}''))
     [''text-align'', ''white-space'', ''page-break-after'']"
  by (simp add: word_evals)

lemma bleed_terminated:
  "bleedRule False m (utf16 ''a'') (utf16 ''{duokan-bleed:left;duokan-bleed:top;}'')
     = utf16 ''a{duokan-bleed:left;duokan-bleed:top; margin-top: calc(-1 * var(--page-margin-top)) !important;  margin-left: calc(-1 * var(--page-margin-left)) !important;  position: relative !important;  overflow: hidden !important;  display: flow-root !important; }''"
  by (simp add: bleed_evals del: searchFrom.simps(2) replaceFirstFrom.simps(2))

lemma plain_terminated:
  "list_all (\<lambda>w. \<not> holds True w (utf16 ''a{duokan-bleed:left;duokan-bleed:top; margin-top: calc(-1 * var(--page-margin-top)) !important;  margin-left: calc(-1 * var(--page-margin-left)) !important;  position: relative !important;  overflow: hidden !important;  display: flow-root !important; }'')) valueWords"
  by (simp add: word_evals)

lemma transform_terminated:
  "transformStylesheet N (utf16 ''a{duokan-bleed:left;duokan-bleed:top;}'') False
     = utf16 ''a{duokan-bleed:left;duokan-bleed:top; margin-top: calc(-1 * var(--page-margin-top)) !important;  margin-left: calc(-1 * var(--page-margin-left)) !important;  position: relative !important;  overflow: hidden !important;  display: flow-root !important; }''"
  using transform_single_rule [of "utf16 ''a''" "utf16 ''duokan-bleed:left;duokan-bleed:top;''"
      "utf16 ''duokan-bleed:left;duokan-bleed:top; margin-top: calc(-1 * var(--page-margin-top)) !important;  margin-left: calc(-1 * var(--page-margin-left)) !important;  position: relative !important;  overflow: hidden !important;  display: flow-root !important; ''" N]
    skip_terminated skip_selector plain_terminated bleed_terminated [of "utf16 ''a{duokan-bleed:left;duokan-bleed:top;}''"]
  by (simp add: list_all_iff utf16_def)

lemma skip_terminated_again:
  "list_all (\<lambda>w. \<not> holds False w (utf16 ''{duokan-bleed:left;duokan-bleed:top; margin-top: calc(-1 * var(--page-margin-top)) !important;  margin-left: calc(-1 * var(--page-margin-left)) !important;  position: relative !important;  overflow: hidden !important;  display: flow-root !important; }''))
     [''text-align'', ''white-space'', ''page-break-after'']"
  by (simp add: word_evals)

lemma bleed_terminated_again:
  "bleedRule False m (utf16 ''a'') (utf16 ''{duokan-bleed:left;duokan-bleed:top; margin-top: calc(-1 * var(--page-margin-top)) !important;  margin-left: calc(-1 * var(--page-margin-left)) !important;  position: relative !important;  overflow: hidden !important;  display: flow-root !important; }'')
     = utf16 ''a{duokan-bleed:left;duokan-bleed:top; margin-top: calc(-1 * var(--page-margin-top)) !important;  margin-left: calc(-1 * var(--page-margin-left)) !important;  position: relative !important;  overflow: hidden !important;  display: flow-root !important; }''"
  by (simp add: bleed_evals del: searchFrom.simps(2) replaceFirstFrom.simps(2))

lemma plain_terminated_again:
  "list_all (\<lambda>w. \<not> holds True w (utf16 ''a{duokan-bleed:left;duokan-bleed:top; margin-top: calc(-1 * var(--page-margin-top)) !important;  margin-left: calc(-1 * var(--page-margin-left)) !important;  position: relative !important;  overflow: hidden !important;  display: flow-root !important; }'')) valueWords"
  by (simp add: word_evals)

lemma transform_terminated_again:
  "transformStylesheet N (utf16 ''a{duokan-bleed:left;duokan-bleed:top; margin-top: calc(-1 * var(--page-margin-top)) !important;  margin-left: calc(-1 * var(--page-margin-left)) !important;  position: relative !important;  overflow: hidden !important;  display: flow-root !important; }'') False
     = utf16 ''a{duokan-bleed:left;duokan-bleed:top; margin-top: calc(-1 * var(--page-margin-top)) !important;  margin-left: calc(-1 * var(--page-margin-left)) !important;  position: relative !important;  overflow: hidden !important;  display: flow-root !important; }''"
  using transform_single_rule [of "utf16 ''a''" "utf16 ''duokan-bleed:left;duokan-bleed:top; margin-top: calc(-1 * var(--page-margin-top)) !important;  margin-left: calc(-1 * var(--page-margin-left)) !important;  position: relative !important;  overflow: hidden !important;  display: flow-root !important; ''"
      "utf16 ''duokan-bleed:left;duokan-bleed:top; margin-top: calc(-1 * var(--page-margin-top)) !important;  margin-left: calc(-1 * var(--page-margin-left)) !important;  position: relative !important;  overflow: hidden !important;  display: flow-root !important; ''" N]
    skip_terminated_again skip_selector plain_terminated_again bleed_terminated_again [of "utf16 ''a{duokan-bleed:left;duokan-bleed:top; margin-top: calc(-1 * var(--page-margin-top)) !important;  margin-left: calc(-1 * var(--page-margin-left)) !important;  position: relative !important;  overflow: hidden !important;  display: flow-root !important; }''"]
  by (simp add: list_all_iff utf16_def)

lemma terminated_bleed_rule_stable:
  "transformStylesheet N (transformStylesheet N (utf16 ''a{duokan-bleed:left;duokan-bleed:top;}'') False) False
     = transformStylesheet N (utf16 ''a{duokan-bleed:left;duokan-bleed:top;}'') False"
  by (simp only: transform_terminated transform_terminated_again)

text \<open>
  C4. On \<open>a{duokan-bleed:left;duokan-bleed:top}\<close> with \<open>vertical = false\<close> the transform is not
  idempotent, for every viewport and platform. The expression
  \<open>duokan-bleed\s*:\s*[^;]*top[^;]*;\<close> asks for a semicolon behind the declaration, so the
  first application misses the unterminated \<open>top\<close> declaration and appends the margin for
  \<open>left\<close> only, with \<open>position\<close>, \<open>overflow\<close> and \<open>display\<close>. The text it appends in place of
  \<open>}\<close> supplies the semicolon: in the result the expression for \<open>top\<close> matches, and the
  second application appends \<open>margin-top\<close> as well. The claim asks that the second
  application change nothing. The guard in front of every append
  (\<open>!marginRegex.test(block)\<close> and the like) aims at that and achieves it when the
  declaration is terminated, as the lemma above shows; the inline path separates what
  it appends by \<open>; \<close>, the rule path does not.
\<close>

theorem second_pass_adds_bleed_margin:
  "transformStylesheet N (utf16 ''a{duokan-bleed:left;duokan-bleed:top}'') False
     = utf16 ''a{duokan-bleed:left;duokan-bleed:top margin-left: calc(-1 * var(--page-margin-left)) !important;  position: relative !important;  overflow: hidden !important;  display: flow-root !important; }''
   \<and> transformStylesheet N
         (transformStylesheet N (utf16 ''a{duokan-bleed:left;duokan-bleed:top}'') False) False
       = utf16 ''a{duokan-bleed:left;duokan-bleed:top margin-left: calc(-1 * var(--page-margin-left)) !important;  position: relative !important;  overflow: hidden !important;  display: flow-root !important;  margin-top: calc(-1 * var(--page-margin-top)) !important; }''
   \<and> transformStylesheet N
         (transformStylesheet N (utf16 ''a{duokan-bleed:left;duokan-bleed:top}'') False) False
       \<noteq> transformStylesheet N (utf16 ''a{duokan-bleed:left;duokan-bleed:top}'') False"
  by (simp only: transform_unterminated transform_unterminated_again) (simp add: utf16_def)

end
